theory Spec2Isabelle
  imports Main "HOL-Library.Word" "HOL-Library.Log_Nat"
begin

unbundle bit_operations_syntax

section \<open>Data model of phash.go\<close>

text \<open>
  The table lives in one memory-mapped file.  The model keeps the mapped bytes (which, the
  mapping being shared, are the bytes of the file) and the five cached header fields of the
  Go struct \<^verbatim>\<open>PersistentHash\<close>.  The mutex, the file descriptor and the path carry no
  data and are left out; failures of the operating system (open, stat, truncate, mmap,
  rename) are not modelled, every other error return and every runtime panic is.
\<close>

type_synonym u8 = "8 word"
type_synonym u32 = "32 word"
type_synonym bytes = "u8 list"

definition magicNumber :: u32 where
  "magicNumber = 0x70687368"

definition version :: u32 where
  "version = 1"

definition headerSize :: u32 where
  "headerSize = 28"

datatype error =
    FormatError       \<comment> \<open>"invalid magic number"\<close>
  | IOError           \<comment> \<open>"file size is zero after initialization"\<close>
  | ValidationError   \<comment> \<open>"invalid key/value size"\<close>
  | CapacityError     \<comment> \<open>"hash table full"\<close>
  | RetryExhausted    \<comment> \<open>"exceeded maximum retry count"\<close>
  | ResizeFailed      \<comment> \<open>"failed to find slot for key during resize"\<close>
  | Panic             \<comment> \<open>index or slice bound out of range, integer division by zero\<close>

record PersistentHash =
  data :: bytes
  keySize :: u32
  valueSize :: u32
  slotSize :: u32
  numSlots :: u32
  usedSlots :: u32

subsection \<open>Byte-slice primitives\<close>

text \<open>\<^verbatim>\<open>binary.BigEndian.Uint32\<close> and \<^verbatim>\<open>PutUint32\<close> on a four-byte slice.\<close>

definition Uint32 :: "bytes \<Rightarrow> u32" where
  "Uint32 b = ucast (b ! 3) OR push_bit 8 (ucast (b ! 2)) OR push_bit 16 (ucast (b ! 1))
               OR push_bit 24 (ucast (b ! 0))"

definition PutUint32 :: "u32 \<Rightarrow> bytes" where
  "PutUint32 v = [ucast (drop_bit 24 v), ucast (drop_bit 16 v), ucast (drop_bit 8 v), ucast v]"

text \<open>\<^verbatim>\<open>xs[lo:hi]\<close>: panics (here \<open>None\<close>) unless \<open>lo \<le> hi \<le> len(xs)\<close>.\<close>

definition slice :: "bytes \<Rightarrow> u32 \<Rightarrow> u32 \<Rightarrow> bytes option" where
  "slice xs lo hi =
     (if unat lo \<le> unat hi \<and> unat hi \<le> length xs
      then Some (take (unat hi - unat lo) (drop (unat lo) xs)) else None)"

text \<open>\<^verbatim>\<open>copy(xs[lo:], src)\<close>: panics unless \<open>lo \<le> len(xs)\<close>; copies as many bytes as fit.\<close>

definition copy_at :: "bytes \<Rightarrow> u32 \<Rightarrow> bytes \<Rightarrow> bytes option" where
  "copy_at xs lo src =
     (if unat lo \<le> length xs
      then Some (take (unat lo) xs @ take (length xs - unat lo) src @ drop (unat lo + length src) xs)
      else None)"

text \<open>\<^verbatim>\<open>binary.BigEndian.PutUint32(xs[12:16], v)\<close>.\<close>

definition put_used :: "bytes \<Rightarrow> u32 \<Rightarrow> bytes option" where
  "put_used xs v = (if 16 \<le> length xs then Some (take 12 xs @ PutUint32 v @ drop 16 xs) else None)"

subsection \<open>FNV-1a\<close>

fun hashKey_loop :: "u32 \<Rightarrow> bytes \<Rightarrow> u32" where
  "hashKey_loop hash [] = hash"
| "hashKey_loop hash (b # key) = hashKey_loop ((hash XOR ucast b) * 16777619) key"

definition hashKey :: "bytes \<Rightarrow> u32" where
  "hashKey key = hashKey_loop 2166136261 key"

subsection \<open>The load-factor test\<close>

text \<open>
  \<^verbatim>\<open>float32(ph.usedSlots+1) / float32(ph.numSlots) > 0.7\<close> is single-precision arithmetic:
  both counts are rounded to the nearest float32, the quotient is rounded again, and the
  constant is the float32 nearest to 7/10.  All values involved are positive and lie
  between \<open>2^-32\<close> and \<open>2^32\<close>, far inside the normal range, where a float32 is a
  24-bit significand times a power of two and rounding goes to the nearest such value,
  ties to the even significand.  A value is kept as a fraction (numerator, denominator)
  of integers.
\<close>

definition round_half_even :: "int \<Rightarrow> int \<Rightarrow> int" where
  "round_half_even p q =
     (let f = p div q; r = p mod q in
      if 2 * r < q then f else if q < 2 * r then f + 1 else if even f then f else f + 1)"

text \<open>
  The float32 nearest to \<open>p / q\<close> (for \<open>p \<ge> 0\<close>, \<open>q > 0\<close>).  With \<open>bitlen\<close> the number of
  binary digits, \<open>a / b = p / q * 2 ^ (24 + bitlen q - bitlen p)\<close> lies strictly between
  \<open>2 ^ 23\<close> and \<open>2 ^ 25\<close>; halving it when it reaches \<open>2 ^ 24\<close> leaves \<open>a / c\<close> in the
  range of a 24-bit significand, which is rounded and scaled back.
\<close>

definition float32 :: "int \<times> int \<Rightarrow> int \<times> int" where
  "float32 x =
     (let p = fst x; q = snd x in
      if p = 0 then (0, 1)
      else
        let up = nat (24 + bitlen q);
            a = p * 2 ^ up;
            b = q * 2 ^ nat (bitlen p);
            c = (if 2 ^ 24 * b \<le> a then 2 * b else b)
        in (round_half_even a c * c, q * 2 ^ up))"

definition float32_div :: "int \<times> int \<Rightarrow> int \<times> int \<Rightarrow> int \<times> int" where
  "float32_div x y = float32 (fst x * snd y, snd x * fst y)"

definition float32_gt :: "int \<times> int \<Rightarrow> int \<times> int \<Rightarrow> bool" where
  "float32_gt x y = (fst y * snd x < fst x * snd y)"

definition float32_of_u32 :: "u32 \<Rightarrow> int \<times> int" where
  "float32_of_u32 w = float32 (uint w, 1)"

text \<open>\<open>load_exceeded (ph.usedSlots + 1) ph.numSlots\<close> is the test \<^verbatim>\<open>loadFactor > 0.7\<close>.\<close>

definition load_exceeded :: "u32 \<Rightarrow> u32 \<Rightarrow> bool" where
  "load_exceeded used slots =
     float32_gt (float32_div (float32_of_u32 used) (float32_of_u32 slots)) (float32 (7, 10))"

section \<open>Operations\<close>

subsection \<open>Open and Close\<close>

definition newHeader :: "u32 \<Rightarrow> u32 \<Rightarrow> u32 \<Rightarrow> u32 \<Rightarrow> bytes" where
  "newHeader slots slotSz keySz valueSz =
     PutUint32 magicNumber @ PutUint32 version @ PutUint32 slots @ PutUint32 0 @
     PutUint32 slotSz @ PutUint32 keySz @ PutUint32 valueSz"

text \<open>
  A file truncated to \<open>fileSize\<close> zero bytes whose first 28 bytes are then written with
  \<^verbatim>\<open>WriteAt(header, 0)\<close> (which extends a shorter file).  \<open>fileSize\<close> is computed in
  \<^verbatim>\<open>uint32\<close> and wraps.
\<close>

definition newFile :: "u32 \<Rightarrow> u32 \<Rightarrow> u32 \<Rightarrow> u32 \<Rightarrow> bytes" where
  "newFile slots slotSz keySz valueSz =
     (let fileSize = headerSize + slots * slotSz
      in newHeader slots slotSz keySz valueSz @ replicate (unat fileSize - 28) 0)"

text \<open>
  \<open>Open file keySize valueSize\<close>: \<open>file\<close> is the content found at the path (\<open>[]\<close> for a
  missing or zero-length file, which \<^verbatim>\<open>O_CREATE\<close> and the size test treat alike).
\<close>

definition Open :: "bytes \<Rightarrow> u32 \<Rightarrow> u32 \<Rightarrow> error + PersistentHash" where
  "Open file keySz valueSz =
     (let contents = (if length file = 0
                      then newFile 1024 (1 + keySz + valueSz) keySz valueSz
                      else file)
      in if length contents = 0 then Inl IOError
         else case slice contents 0 4 of
           None \<Rightarrow> Inl Panic
         | Some magic \<Rightarrow>
             if Uint32 magic \<noteq> magicNumber then Inl FormatError
             else (case (slice contents 8 12, slice contents 12 16, slice contents 16 20,
                         slice contents 20 24, slice contents 24 28) of
                (Some n, Some u, Some s, Some k, Some v) \<Rightarrow>
                  Inr \<lparr>data = contents, keySize = Uint32 k, valueSize = Uint32 v,
                       slotSize = Uint32 s, numSlots = Uint32 n, usedSlots = Uint32 u\<rparr>
              | _ \<Rightarrow> Inl Panic))"

text \<open>\<open>Close\<close> unmaps and closes; what remains is the file, whose bytes are the mapping's.\<close>

definition Close :: "PersistentHash \<Rightarrow> bytes" where
  "Close ph = data ph"

subsection \<open>Get\<close>

text \<open>
  The loop counter \<open>i\<close> is a \<^verbatim>\<open>uint32\<close> that stays below \<open>numSlots\<close>, so it never wraps and
  is a natural number here; every other quantity is a 32-bit word and wraps as in Go.
\<close>

function get_loop :: "PersistentHash \<Rightarrow> bytes \<Rightarrow> u32 \<Rightarrow> nat \<Rightarrow> error + (bytes \<times> bool)" where
  "get_loop ph key idx i =
     (if i < unat (numSlots ph) then
        let currentIdx = (idx + of_nat i) mod numSlots ph;
            slotStart = headerSize + currentIdx * slotSize ph
        in if \<not> unat slotStart < length (data ph) then Inl Panic
           else if data ph ! unat slotStart = 0 then Inr ([], False)
           else if data ph ! unat slotStart = 1 then
             (case slice (data ph) (slotStart + 1) (slotStart + 1 + keySize ph) of
                None \<Rightarrow> Inl Panic
              | Some k \<Rightarrow>
                  if key = k then
                    (case slice (data ph) (slotStart + 1 + keySize ph) (slotStart + slotSize ph) of
                       None \<Rightarrow> Inl Panic
                     | Some v \<Rightarrow>
                         Inr (take (unat (valueSize ph)) v
                                @ replicate (unat (valueSize ph) - length v) 0, True))
                  else get_loop ph key idx (i + 1))
           else get_loop ph key idx (i + 1)
      else Inr ([], False))"
  by pat_completeness auto
termination
  by (relation "measure (\<lambda>(ph, key, idx, i). unat (numSlots ph) - i)") auto

definition Get :: "PersistentHash \<Rightarrow> bytes \<Rightarrow> error + (bytes \<times> bool)" where
  "Get ph key =
     (if (of_nat (length key) :: u32) \<noteq> keySize ph then Inr ([], False)
      else if numSlots ph = 0 then Inl Panic
      else get_loop ph key (hashKey key mod numSlots ph) 0)"

subsection \<open>resize\<close>

text \<open>
  Filling a free slot: \<^verbatim>\<open>copy\<close> of the key, \<^verbatim>\<open>copy\<close> of the value, then the status byte
  (lines 219 to 221 in \<^verbatim>\<open>putWithRetry\<close>, 354 to 356 in \<^verbatim>\<open>resize\<close>).
\<close>

definition write_slot :: "bytes \<Rightarrow> u32 \<Rightarrow> u32 \<Rightarrow> bytes \<Rightarrow> bytes \<Rightarrow> bytes option" where
  "write_slot xs slotStart keySz key val =
     (case copy_at xs (slotStart + 1) key of
        None \<Rightarrow> None
      | Some xs1 \<Rightarrow>
          (case copy_at xs1 (slotStart + 1 + keySz) val of
             None \<Rightarrow> None
           | Some xs2 \<Rightarrow> Some (xs2[unat slotStart := 1])))"

text \<open>Lines 360 and 361: the new header's count is read, incremented and written back.\<close>

definition bump_used :: "bytes \<Rightarrow> bytes option" where
  "bump_used xs = (case slice xs 12 16 of None \<Rightarrow> None | Some u \<Rightarrow> put_used xs (Uint32 u + 1))"

function rehash_probe ::
  "bytes \<Rightarrow> u32 \<Rightarrow> u32 \<Rightarrow> u32 \<Rightarrow> bytes \<Rightarrow> bytes \<Rightarrow> u32 \<Rightarrow> nat \<Rightarrow> error + bytes" where
  "rehash_probe tmpData newNumSlots newSlotSize keySz key val idx j =
     (if j < unat newNumSlots then
        let currentIdx = (idx + of_nat j) mod newNumSlots;
            newSlotStart = headerSize + currentIdx * newSlotSize
        in if \<not> unat newSlotStart < length tmpData then Inl Panic
           else if tmpData ! unat newSlotStart = 0 then
             (case write_slot tmpData newSlotStart keySz key val of
                None \<Rightarrow> Inl Panic
              | Some tmpData1 \<Rightarrow>
                  (case bump_used tmpData1 of
                     None \<Rightarrow> Inl Panic
                   | Some tmpData2 \<Rightarrow> Inr tmpData2))
           else rehash_probe tmpData newNumSlots newSlotSize keySz key val idx (j + 1)
      else Inl ResizeFailed)"
  by pat_completeness auto
termination
  by (relation "measure (\<lambda>(t, n, s, k, key, val, idx, j). unat n - j)") auto

function rehash :: "PersistentHash \<Rightarrow> u32 \<Rightarrow> bytes \<Rightarrow> nat \<Rightarrow> u32 \<Rightarrow> error + bytes" where
  "rehash ph newNumSlots tmpData i usedCount =
     (if i < unat (numSlots ph) \<and> usedCount < usedSlots ph then
        let slotStart = headerSize + of_nat i * slotSize ph
        in if \<not> unat slotStart < length (data ph) then Inl Panic
           else if data ph ! unat slotStart = 1 then
             (case (slice (data ph) (slotStart + 1) (slotStart + 1 + keySize ph),
                    slice (data ph) (slotStart + 1 + keySize ph) (slotStart + slotSize ph)) of
                (Some key, Some val) \<Rightarrow>
                  if newNumSlots = 0 then Inl Panic
                  else (case rehash_probe tmpData newNumSlots (slotSize ph) (keySize ph) key val
                               (hashKey key mod newNumSlots) 0 of
                          Inl e \<Rightarrow> Inl e
                        | Inr tmpData' \<Rightarrow> rehash ph newNumSlots tmpData' (i + 1) (usedCount + 1))
              | _ \<Rightarrow> Inl Panic)
           else rehash ph newNumSlots tmpData (i + 1) usedCount
      else Inr tmpData)"
  by pat_completeness auto
termination
  by (relation "measure (\<lambda>(ph, n, t, i, c). unat (numSlots ph) - i)") auto

text \<open>
  After the rehash the old file is unmapped and closed, the temporary file is renamed over
  it, reopened and mapped; \<open>numSlots\<close> is set from the computed capacity and \<open>usedSlots\<close>
  read back from the new header.  An error leaves the handle as it was.
\<close>

definition resize :: "PersistentHash \<Rightarrow> error + PersistentHash" where
  "resize ph =
     (let newNumSlots = numSlots ph * 2;
          newSlotSize = slotSize ph;
          tmpData0 = newFile newNumSlots newSlotSize (keySize ph) (valueSize ph)
      in case rehash ph newNumSlots tmpData0 0 0 of
           Inl e \<Rightarrow> Inl e
         | Inr tmpData \<Rightarrow>
             (case slice tmpData 12 16 of
                None \<Rightarrow> Inl Panic
              | Some u \<Rightarrow> Inr (ph\<lparr>data := tmpData, numSlots := newNumSlots, usedSlots := Uint32 u\<rparr>)))"

subsection \<open>Put\<close>

text \<open>
  Lines 219 to 224, the insertion into the free slot at \<open>slotStart\<close>: \<^verbatim>\<open>copy\<close> of the key,
  \<^verbatim>\<open>copy\<close> of the value, the status byte, \<^verbatim>\<open>ph.usedSlots++\<close> and the count in the header.
  The mapping is written in place, so a panic at a later line leaves the writes of the
  earlier lines in the handle.
\<close>

definition insert_slot ::
    "PersistentHash \<Rightarrow> u32 \<Rightarrow> bytes \<Rightarrow> bytes \<Rightarrow> error option \<times> PersistentHash" where
  "insert_slot ph slotStart key val =
     (case copy_at (data ph) (slotStart + 1) key of
        None \<Rightarrow> (Some Panic, ph)
      | Some d1 \<Rightarrow>
          (case copy_at d1 (slotStart + 1 + keySize ph) val of
             None \<Rightarrow> (Some Panic, ph\<lparr>data := d1\<rparr>)
           | Some d2 \<Rightarrow>
               (let d3 = d2[unat slotStart := 1];
                    used = usedSlots ph + 1
                in case put_used d3 used of
                     None \<Rightarrow> (Some Panic, ph\<lparr>data := d3, usedSlots := used\<rparr>)
                   | Some d4 \<Rightarrow> (None, ph\<lparr>data := d4, usedSlots := used\<rparr>))))"

text \<open>
  \<open>put_loop\<close> is the \<^verbatim>\<open>for\<close> loop of \<^verbatim>\<open>putWithRetry\<close>, which calls \<^verbatim>\<open>putWithRetry\<close> again
  after a resize.  The result is the returned error (\<open>None\<close> for \<^verbatim>\<open>nil\<close>) and the handle
  as the call leaves it.
\<close>

function put_loop ::
    "PersistentHash \<Rightarrow> bytes \<Rightarrow> bytes \<Rightarrow> nat \<Rightarrow> u32 \<Rightarrow> nat \<Rightarrow> error option \<times> PersistentHash"
  and putWithRetry ::
    "PersistentHash \<Rightarrow> bytes \<Rightarrow> bytes \<Rightarrow> nat \<Rightarrow> error option \<times> PersistentHash" where
  "put_loop ph key val retryCount idx i =
     (if i < unat (numSlots ph) then
        let currentIdx = (idx + of_nat i) mod numSlots ph;
            slotStart = headerSize + currentIdx * slotSize ph
        in if \<not> unat slotStart < length (data ph) then (Some Panic, ph)
           else if data ph ! unat slotStart = 0 then
             (if load_exceeded (usedSlots ph + 1) (numSlots ph) then
                (case resize ph of
                   Inl e \<Rightarrow> (Some e, ph)
                 | Inr ph' \<Rightarrow> putWithRetry ph' key val (retryCount + 1))
              else
                insert_slot ph slotStart key val)
           else if data ph ! unat slotStart = 1 then
             (case slice (data ph) (slotStart + 1) (slotStart + 1 + keySize ph) of
                None \<Rightarrow> (Some Panic, ph)
              | Some k \<Rightarrow>
                  if key = k then
                    (case copy_at (data ph) (slotStart + 1 + keySize ph) val of
                       None \<Rightarrow> (Some Panic, ph)
                     | Some d \<Rightarrow> (None, ph\<lparr>data := d\<rparr>))
                  else put_loop ph key val retryCount idx (i + 1))
           else put_loop ph key val retryCount idx (i + 1)
      else (Some CapacityError, ph))"
| "putWithRetry ph key val retryCount =
     (if 3 < retryCount then (Some RetryExhausted, ph)
      else if numSlots ph = 0 then (Some Panic, ph)
      else put_loop ph key val retryCount (hashKey key mod numSlots ph) 0)"
  by pat_completeness auto
termination
  by (relation "measures
        [\<lambda>x. case x of Inl (ph, key, val, r, idx, i) \<Rightarrow> 2 * (4 - r) + 1
                      | Inr (ph, key, val, r) \<Rightarrow> if 3 < r then 0 else 2 * (4 - r) + 2,
         \<lambda>x. case x of Inl (ph, key, val, r, idx, i) \<Rightarrow> unat (numSlots ph) - i
                      | Inr (ph, key, val, r) \<Rightarrow> 0]") auto

definition Put :: "PersistentHash \<Rightarrow> bytes \<Rightarrow> bytes \<Rightarrow> error option \<times> PersistentHash" where
  "Put ph key val =
     (if (of_nat (length key) :: u32) \<noteq> keySize ph \<or> (of_nat (length val) :: u32) \<noteq> valueSize ph
      then (Some ValidationError, ph)
      else putWithRetry ph key val 0)"

section \<open>Definitions used in the verification\<close>

subsection \<open>The probe sequence on its own\<close>

text \<open>
  \<open>probe\<close> is the scan shared by the loops of \<^verbatim>\<open>putWithRetry\<close> and \<^verbatim>\<open>Get\<close>, stripped of what
  they do at the slot they stop at: it yields the offset of the first free slot (\<open>Free\<close>), the
  offset of the first occupied slot holding the key (\<open>Hit\<close>), \<open>Full\<close> after a whole cycle,
  or \<open>Fault\<close> where the loop would panic.  \<open>put_loop_probe\<close> and \<open>get_loop_probe\<close> below
  show that both loops are this scan followed by their action.
\<close>

datatype probe_result = Fault | Full | Free u32 | Hit u32

function probe :: "PersistentHash \<Rightarrow> bytes \<Rightarrow> u32 \<Rightarrow> nat \<Rightarrow> probe_result" where
  "probe ph key idx i =
     (if i < unat (numSlots ph) then
        let currentIdx = (idx + of_nat i) mod numSlots ph;
            slotStart = headerSize + currentIdx * slotSize ph
        in if \<not> unat slotStart < length (data ph) then Fault
           else if data ph ! unat slotStart = 0 then Free slotStart
           else if data ph ! unat slotStart = 1 then
             (case slice (data ph) (slotStart + 1) (slotStart + 1 + keySize ph) of
                None \<Rightarrow> Fault
              | Some k \<Rightarrow> if key = k then Hit slotStart else probe ph key idx (i + 1))
           else probe ph key idx (i + 1)
      else Full)"
  by pat_completeness auto
termination
  by (relation "measure (\<lambda>(ph, key, idx, i). unat (numSlots ph) - i)") auto

text \<open>The scan of the inner loop of \<^verbatim>\<open>resize\<close>, which looks for a free slot only.\<close>

function probe_free :: "bytes \<Rightarrow> u32 \<Rightarrow> u32 \<Rightarrow> u32 \<Rightarrow> nat \<Rightarrow> probe_result" where
  "probe_free tmpData newNumSlots newSlotSize idx j =
     (if j < unat newNumSlots then
        let currentIdx = (idx + of_nat j) mod newNumSlots;
            newSlotStart = headerSize + currentIdx * newSlotSize
        in if \<not> unat newSlotStart < length tmpData then Fault
           else if tmpData ! unat newSlotStart = 0 then Free newSlotStart
           else probe_free tmpData newNumSlots newSlotSize idx (j + 1)
      else Full)"
  by pat_completeness auto
termination
  by (relation "measure (\<lambda>(t, n, s, idx, j). unat n - j)") auto

subsection \<open>Example tables\<close>

text \<open>A two-slot table with one-byte keys and values, as a file and as an open handle.\<close>

definition file2 :: bytes where
  "file2 = newFile 2 3 1 1"

definition table2 :: PersistentHash where
  "table2 = \<lparr>data = file2, keySize = 1, valueSize = 1, slotSize = 3, numSlots = 2, usedSlots = 0\<rparr>"

text \<open>The same table holding the key \<open>[5]\<close> with value \<open>[50]\<close> (in slot 0).\<close>

definition table2_5 :: PersistentHash where
  "table2_5 = snd (Put table2 [5] [50])"

text \<open>The table with that entry after one resize (four slots, the entry again in slot 0).\<close>

definition table4_5 :: PersistentHash where
  "table4_5 = \<lparr>data = [0x70, 0x68, 0x73, 0x68, 0, 0, 0, 1, 0, 0, 0, 4, 0, 0, 0, 1,
                            0, 0, 0, 3, 0, 0, 0, 1, 0, 0, 0, 1,
                            1, 5, 50, 0, 0, 0, 0, 0, 0, 0, 0, 0],
                keySize = 1, valueSize = 1, slotSize = 3, numSlots = 4, usedSlots = 1\<rparr>"

text \<open>That table after \<open>[7]\<close> with value \<open>[70]\<close> has been put as well (in slot 2).\<close>

definition table4_5_7 :: PersistentHash where
  "table4_5_7 = \<lparr>data = [0x70, 0x68, 0x73, 0x68, 0, 0, 0, 1, 0, 0, 0, 4, 0, 0, 0, 2,
                              0, 0, 0, 3, 0, 0, 0, 1, 0, 0, 0, 1,
                              1, 5, 50, 0, 0, 0, 1, 7, 70, 0, 0, 0],
                  keySize = 1, valueSize = 1, slotSize = 3, numSlots = 4, usedSlots = 2\<rparr>"

text \<open>The two-slot table with the value of \<open>[5]\<close> overwritten by \<open>[51]\<close>.\<close>

definition table2_51 :: PersistentHash where
  "table2_51 = \<lparr>data = [0x70, 0x68, 0x73, 0x68, 0, 0, 0, 1, 0, 0, 0, 2, 0, 0, 0, 1,
                             0, 0, 0, 3, 0, 0, 0, 1, 0, 0, 0, 1, 1, 5, 51, 0, 0, 0],
                 keySize = 1, valueSize = 1, slotSize = 3, numSlots = 2, usedSlots = 1\<rparr>"

text \<open>A file that ends after its magic number.\<close>

definition file_magic_only :: bytes where
  "file_magic_only = PutUint32 magicNumber"

text \<open>A key of \<open>2^32 + 1\<close> bytes.\<close>

definition huge_key :: bytes where
  "huge_key = replicate 4294967297 0"

subsection \<open>Slots, seen as natural-number offsets\<close>

definition slot_start :: "PersistentHash \<Rightarrow> nat \<Rightarrow> nat" where
  "slot_start ph j = 28 + j * unat (slotSize ph)"

definition status_at :: "PersistentHash \<Rightarrow> nat \<Rightarrow> u8" where
  "status_at ph j = data ph ! slot_start ph j"

definition key_at :: "PersistentHash \<Rightarrow> nat \<Rightarrow> bytes" where
  "key_at ph j = take (unat (keySize ph)) (drop (slot_start ph j + 1) (data ph))"

definition value_at :: "PersistentHash \<Rightarrow> nat \<Rightarrow> bytes" where
  "value_at ph j =
     take (unat (valueSize ph)) (drop (slot_start ph j + 1 + unat (keySize ph)) (data ph))"

text \<open>The slot index a key hashes to, and the \<open>i\<close>-th slot of its probe sequence.\<close>

definition home :: "PersistentHash \<Rightarrow> bytes \<Rightarrow> nat" where
  "home ph key = unat (hashKey key mod numSlots ph)"

definition pos :: "PersistentHash \<Rightarrow> bytes \<Rightarrow> nat \<Rightarrow> nat" where
  "pos ph key i = (home ph key + i) mod unat (numSlots ph)"

text \<open>\<open>overwrite_at xs a ys\<close>: the bytes \<open>ys\<close> written over \<open>xs\<close> from offset \<open>a\<close>.\<close>

definition overwrite_at :: "bytes \<Rightarrow> nat \<Rightarrow> bytes \<Rightarrow> bytes" where
  "overwrite_at xs a ys = take a xs @ ys @ drop (a + length ys) xs"

text \<open>The handle after an insertion into slot \<open>p\<close>, and after an overwrite of its value.\<close>

definition set_slot :: "PersistentHash \<Rightarrow> nat \<Rightarrow> bytes \<Rightarrow> bytes \<Rightarrow> PersistentHash" where
  "set_slot ph p key val =
     ph\<lparr>data := overwrite_at (overwrite_at (data ph) (slot_start ph p) (1 # key @ val)) 12
                   (PutUint32 (usedSlots ph + 1)),
        usedSlots := usedSlots ph + 1\<rparr>"

definition set_value :: "PersistentHash \<Rightarrow> nat \<Rightarrow> bytes \<Rightarrow> PersistentHash" where
  "set_value ph p val =
     ph\<lparr>data := overwrite_at (data ph) (slot_start ph p + 1 + unat (keySize ph)) val\<rparr>"

subsection \<open>The invariant of a table\<close>

text \<open>
  \<open>geometry\<close>: the mapping is exactly a header and \<open>numSlots\<close> slots of \<open>slotSize\<close> bytes, a
  slot is a status byte, a key and a value, and all of it lies within 32-bit offsets.
\<close>

definition geometry :: "PersistentHash \<Rightarrow> bool" where
  "geometry ph \<longleftrightarrow>
     0 < unat (numSlots ph) \<and> unat (numSlots ph) < 2 ^ 31 \<and>
     unat (slotSize ph) = 1 + unat (keySize ph) + unat (valueSize ph) \<and>
     length (data ph) = 28 + unat (numSlots ph) * unat (slotSize ph) \<and>
     length (data ph) < 2 ^ 32"

text \<open>\<open>header_ok\<close>: the header bytes of the mapping agree with the cached fields.\<close>

definition header_ok :: "PersistentHash \<Rightarrow> bool" where
  "header_ok ph \<longleftrightarrow>
     28 \<le> length (data ph) \<and>
     Uint32 (take 4 (data ph)) = magicNumber \<and>
     Uint32 (take 4 (drop 8 (data ph))) = numSlots ph \<and>
     Uint32 (take 4 (drop 12 (data ph))) = usedSlots ph \<and>
     Uint32 (take 4 (drop 16 (data ph))) = slotSize ph \<and>
     Uint32 (take 4 (drop 20 (data ph))) = keySize ph \<and>
     Uint32 (take 4 (drop 24 (data ph))) = valueSize ph"

definition occupied :: "PersistentHash \<Rightarrow> nat set" where
  "occupied ph = {j. j < unat (numSlots ph) \<and> status_at ph j = 1}"

text \<open>\<open>usedSlots\<close> counts the occupied slots.\<close>

definition count_ok :: "PersistentHash \<Rightarrow> bool" where
  "count_ok ph \<longleftrightarrow> unat (usedSlots ph) = card (occupied ph)"

text \<open>No two occupied slots hold the same key.\<close>

definition keys_unique :: "PersistentHash \<Rightarrow> bool" where
  "keys_unique ph \<longleftrightarrow>
     (\<forall>i \<in> occupied ph. \<forall>j \<in> occupied ph. key_at ph i = key_at ph j \<longrightarrow> i = j)"

text \<open>Every occupied slot lies on the probe sequence of its key, with no free slot before it.\<close>

definition probe_paths :: "PersistentHash \<Rightarrow> bool" where
  "probe_paths ph \<longleftrightarrow>
     (\<forall>j \<in> occupied ph. \<exists>d < unat (numSlots ph).
         pos ph (key_at ph j) d = j \<and> (\<forall>i < d. status_at ph (pos ph (key_at ph j) i) \<noteq> 0))"

definition table_inv :: "PersistentHash \<Rightarrow> bool" where
  "table_inv ph \<longleftrightarrow>
     geometry ph \<and> header_ok ph \<and> count_ok ph \<and> keys_unique ph \<and> probe_paths ph"

text \<open>\<open>stored ph key val\<close>: some occupied slot holds \<open>key\<close> with \<open>val\<close>.\<close>

definition stored :: "PersistentHash \<Rightarrow> bytes \<Rightarrow> bytes \<Rightarrow> bool" where
  "stored ph key val \<longleftrightarrow> (\<exists>j \<in> occupied ph. key_at ph j = key \<and> value_at ph j = val)"

text \<open>
  \<open>fits ph m\<close>: a table of \<open>m\<close> times the present capacity still lies within 32-bit offsets,
  so that the \<^verbatim>\<open>uint32\<close> arithmetic of \<open>log\<^sub>2 m\<close> successive resizes does not wrap.
\<close>

definition fits :: "PersistentHash \<Rightarrow> nat \<Rightarrow> bool" where
  "fits ph m \<longleftrightarrow>
     28 + m * unat (numSlots ph) * unat (slotSize ph) < 2 ^ 32 \<and> m * unat (numSlots ph) < 2 ^ 31"

text \<open>
  \<open>passes ph key h i d\<close>: on the probe sequence that starts at slot \<open>h\<close>, the loops of
  \<^verbatim>\<open>putWithRetry\<close> and \<^verbatim>\<open>Get\<close> step over every position from \<open>i\<close> up to (excluding) \<open>d\<close>: the
  slot there is not free and does not hold \<open>key\<close>.
\<close>

definition passes :: "PersistentHash \<Rightarrow> bytes \<Rightarrow> nat \<Rightarrow> nat \<Rightarrow> nat \<Rightarrow> bool" where
  "passes ph key h i d \<longleftrightarrow>
     (\<forall>d'. i \<le> d' \<and> d' < d \<longrightarrow>
        status_at ph ((h + d') mod unat (numSlots ph)) \<noteq> 0 \<and>
        \<not> (status_at ph ((h + d') mod unat (numSlots ph)) = 1 \<and>
           key_at ph ((h + d') mod unat (numSlots ph)) = key))"

text \<open>
  \<open>stops_at ph key h i w d\<close>: the scan that is at position \<open>i\<close> comes to position \<open>d\<close>, whose
  slot starts at the offset \<open>w\<close>.
\<close>

definition stops_at :: "PersistentHash \<Rightarrow> bytes \<Rightarrow> nat \<Rightarrow> nat \<Rightarrow> u32 \<Rightarrow> nat \<Rightarrow> bool" where
  "stops_at ph key h i w d \<longleftrightarrow>
     i \<le> d \<and> d < unat (numSlots ph) \<and> passes ph key h i d \<and>
     unat w = slot_start ph ((h + d) mod unat (numSlots ph))"

text \<open>
  The table under construction during a resize: the new mapping with the doubled capacity,
  its count read from its own header, the sizes as in the old table.
\<close>

definition tmp_table :: "PersistentHash \<Rightarrow> bytes \<Rightarrow> PersistentHash" where
  "tmp_table ph tmpData =
     ph\<lparr>data := tmpData, numSlots := numSlots ph * 2,
        usedSlots := Uint32 (take 4 (drop 12 tmpData))\<rparr>"


subsection \<open>Reachable tables and runs of Put\<close>

text \<open>
  The tables that the operations produce from a new file: \<^verbatim>\<open>Open\<close> on an empty file,
  \<^verbatim>\<open>Put\<close> with whatever result, \<^verbatim>\<open>resize\<close>, and \<^verbatim>\<open>Close\<close> followed by \<^verbatim>\<open>Open\<close> of the file
  left behind (\<^verbatim>\<open>Get\<close> changes nothing).  The side conditions keep the run inside 32-bit
  offsets and byte slices shorter than \<open>2^32\<close>: the new file holds its 1024 slots, and the
  table can be doubled as often as the operation may do it (four times for a \<^verbatim>\<open>Put\<close>, with
  its retries).
\<close>

inductive reachable :: "PersistentHash \<Rightarrow> bool" where
  opened:
    "Open [] keySz valueSz = Inr ph \<Longrightarrow> 28 + 1024 * (1 + unat keySz + unat valueSz) < 2 ^ 32 \<Longrightarrow>
     reachable ph"
| put:
    "reachable ph \<Longrightarrow> fits ph 16 \<Longrightarrow> length key < 2 ^ 32 \<Longrightarrow> length val < 2 ^ 32 \<Longrightarrow>
     Put ph key val = (res, ph') \<Longrightarrow> reachable ph'"
| resized:
    "reachable ph \<Longrightarrow> fits ph 2 \<Longrightarrow> resize ph = Inr ph' \<Longrightarrow> reachable ph'"
| reopened:
    "reachable ph \<Longrightarrow> Open (Close ph) keySz valueSz = Inr ph' \<Longrightarrow> reachable ph'"

text \<open>
  \<open>put_seq ph kvs ph'\<close>: the pairs \<open>kvs\<close>, of valid lengths, are put one after the other into
  \<open>ph\<close>, every \<^verbatim>\<open>Put\<close> starts on a table that can be doubled three times within 32-bit
  offsets and succeeds, and \<open>ph'\<close> is the table at the end.
\<close>

inductive put_seq :: "PersistentHash \<Rightarrow> (bytes \<times> bytes) list \<Rightarrow> PersistentHash \<Rightarrow> bool" where
  put_none: "put_seq ph [] ph"
| put_next:
    "fits ph 8 \<Longrightarrow> length key = unat (keySize ph) \<Longrightarrow> length val = unat (valueSize ph) \<Longrightarrow>
     Put ph key val = (None, ph1) \<Longrightarrow> put_seq ph1 kvs ph' \<Longrightarrow>
     put_seq ph ((key, val) # kvs) ph'"

text \<open>A new file for one-byte keys and values, opened.\<close>

definition fresh11 :: PersistentHash where
  "fresh11 = \<lparr>data = newFile 1024 3 1 1, keySize = 1, valueSize = 1, slotSize = 3,
               numSlots = 1024, usedSlots = 0\<rparr>"

text \<open>The same after \<open>[5]\<close> (home slot 320) and then \<open>[7]\<close> (home slot 102) have been put.\<close>

definition fresh11_5 :: PersistentHash where
  "fresh11_5 = set_slot fresh11 320 [5] [50]"

definition fresh11_5_7 :: PersistentHash where
  "fresh11_5_7 = set_slot fresh11_5 102 [7] [70]"

text \<open>
  A table of \<open>2^26\<close> slots (the capacity after sixteen doublings of 1024) with four-byte
  keys and empty values, whose count stands at 46976204, and the file it is opened from.
  Only the count, the capacity and the free home slot of the key matter below
  (\<open>Put_insert_home\<close>), so the slots are left empty.
\<close>

definition big_file :: bytes where
  "big_file =
     PutUint32 magicNumber @ PutUint32 version @ PutUint32 67108864 @ PutUint32 46976204 @
     PutUint32 5 @ PutUint32 4 @ PutUint32 0 @ replicate 335544320 0"

definition big_table :: PersistentHash where
  "big_table = \<lparr>data = big_file, keySize = 4, valueSize = 0, slotSize = 5,
                 numSlots = 67108864, usedSlots = 46976204\<rparr>"

subsection \<open>Tables at the edge of 32-bit sizes\<close>

text \<open>
  \<^verbatim>\<open>Open\<close> on a new file with \<open>keySize = 2\<close> and \<open>valueSize = 4194302\<close>: the slot size is
  4194305 and \<open>headerSize + 1024 * slotSize\<close> is \<open>2^32 + 1052\<close>, which the \<^verbatim>\<open>uint32\<close>
  arithmetic of line 93 turns into a file of 1052 bytes.  \<open>wrap_table_put\<close> is that table
  after \<^verbatim>\<open>Put\<close> of the key \<open>[2, 69]\<close> (whose hash is a multiple of 2048) with \<open>wrap_value\<close>,
  and \<open>wrap_table_put2\<close> after a second \<^verbatim>\<open>Put\<close> of the same key with \<open>wrap_value2\<close>.
\<close>

definition wrap_table :: PersistentHash where
  "wrap_table = \<lparr>data = newFile 1024 4194305 2 4194302, keySize = 2, valueSize = 4194302,
                  slotSize = 4194305, numSlots = 1024, usedSlots = 0\<rparr>"

definition wrap_value :: bytes where
  "wrap_value = replicate 4194302 9"

definition wrap_value2 :: bytes where
  "wrap_value2 = replicate 4194302 8"

definition wrap_table_put :: PersistentHash where
  "wrap_table_put =
     \<lparr>data = [0x70, 0x68, 0x73, 0x68, 0, 0, 0, 1, 0, 0, 4, 0, 0, 0, 0, 1,
              0, 0x40, 0, 1, 0, 0, 0, 2, 0, 0x3F, 0xFF, 0xFE, 1, 2, 69] @ replicate 1021 9,
      keySize = 2, valueSize = 4194302, slotSize = 4194305, numSlots = 1024, usedSlots = 1\<rparr>"

definition wrap_table_put2 :: PersistentHash where
  "wrap_table_put2 =
     \<lparr>data = [0x70, 0x68, 0x73, 0x68, 0, 0, 0, 1, 0, 0, 4, 0, 0, 0, 0, 1,
              0, 0x40, 0, 1, 0, 0, 0, 2, 0, 0x3F, 0xFF, 0xFE, 1, 2, 69] @ replicate 1021 8,
      keySize = 2, valueSize = 4194302, slotSize = 4194305, numSlots = 1024, usedSlots = 1\<rparr>"

text \<open>
  \<^verbatim>\<open>Open\<close> on a new file with \<open>keySize = 3\<close> and \<open>valueSize = 4198400\<close>: the file size wraps
  to 4198428 bytes, and the offset of slot 1023, \<open>28 + 1023 * 4198404\<close>, wraps to 24, inside
  the header.  The key \<open>[0, 147, 1]\<close> hashes to slot 1023.  \<open>hdr_table_put\<close> is the table
  after \<^verbatim>\<open>Put\<close> of that key with \<open>hdr_value\<close>, \<open>hdr_table_reopened\<close> the handle \<^verbatim>\<open>Open\<close> returns
  for the file it leaves.
\<close>

definition hdr_table :: PersistentHash where
  "hdr_table = \<lparr>data = newFile 1024 4198404 3 4198400, keySize = 3, valueSize = 4198400,
                 slotSize = 4198404, numSlots = 1024, usedSlots = 0\<rparr>"

definition hdr_value :: bytes where
  "hdr_value = replicate 4198400 9"

definition hdr_table_put :: PersistentHash where
  "hdr_table_put =
     \<lparr>data = [0x70, 0x68, 0x73, 0x68, 0, 0, 0, 1, 0, 0, 4, 0, 0, 0, 0, 1,
              0, 0x40, 0x10, 4, 0, 0, 0, 3, 1, 0, 147, 1] @ replicate 4198400 9,
      keySize = 3, valueSize = 4198400, slotSize = 4198404, numSlots = 1024, usedSlots = 1\<rparr>"

definition hdr_table_reopened :: PersistentHash where
  "hdr_table_reopened = hdr_table_put\<lparr>valueSize := 16814849\<rparr>"





text \<open>
  The new table for two-byte keys and one-byte values, and a value slice of \<open>2^32 + 1\<close>
  bytes, whose length \<^verbatim>\<open>uint32(len(value))\<close> truncates to 1.
\<close>

definition trunc_table :: PersistentHash where
  "trunc_table = \<lparr>data = newFile 1024 4 2 1, keySize = 2, valueSize = 1,
                   slotSize = 4, numSlots = 1024, usedSlots = 0\<rparr>"

definition trunc_value :: bytes where
  "trunc_value = [50, 1, 2, 69, 50] @ replicate 4294967292 0"

definition trunc_table_put :: PersistentHash where
  "trunc_table_put =
     \<lparr>data = [0x70, 0x68, 0x73, 0x68, 0, 0, 0, 1, 0, 0, 4, 0, 0, 0, 0, 1,
              0, 0, 0, 4, 0, 0, 0, 2, 0, 0, 0, 1, 1, 2, 69, 50, 1, 2, 69, 50] @ replicate 4088 0,
      keySize = 2, valueSize = 1, slotSize = 4, numSlots = 1024, usedSlots = 1\<rparr>"

text \<open>
  A value slice of \<open>2^32 + 1\<close> bytes for the two-slot table that holds \<open>[5]\<close> in slot 0, and
  the table after the \<^verbatim>\<open>Put\<close> of \<open>[5]\<close> with it.
\<close>

definition long_value :: bytes where
  "long_value = 51 # replicate 4294967296 9"

definition table2_5_long :: PersistentHash where
  "table2_5_long =
     \<lparr>data = [0x70, 0x68, 0x73, 0x68, 0, 0, 0, 1, 0, 0, 0, 2, 0, 0, 0, 1,
              0, 0, 0, 3, 0, 0, 0, 1, 0, 0, 0, 1, 1, 5, 51, 9, 9, 9],
      keySize = 1, valueSize = 1, slotSize = 3, numSlots = 2, usedSlots = 1\<rparr>"

section \<open>Basic facts\<close>

text \<open>The loops are unfolded by hand, one iteration at a time.\<close>

declare get_loop.simps [simp del]
declare rehash_probe.simps [simp del]
declare rehash.simps [simp del]
declare put_loop.simps [simp del]
declare putWithRetry.simps [simp del]
declare probe.simps [simp del]
declare probe_free.simps [simp del]

lemma Uint32_PutUint32 [simp]: "Uint32 (PutUint32 v) = v"
  unfolding Uint32_def PutUint32_def
  apply simp
  apply (rule bit_word_eqI)
  apply (simp add: bit_simps)
  apply (auto simp: not_less)
  subgoal for n by (cases "24 \<le> n") simp_all
  done

lemma length_PutUint32 [simp]: "length (PutUint32 v) = 4"
  by (simp add: PutUint32_def)

lemma length_newHeader [simp]: "length (newHeader n s k v) = 28"
  by (simp add: newHeader_def)

lemma slice_numeral:
  "slice xs (numeral a) (numeral b) =
     (if unat (numeral a :: u32) \<le> unat (numeral b :: u32) \<and> unat (numeral b :: u32) \<le> length xs
      then Some (take (unat (numeral b :: u32) - unat (numeral a :: u32))
                   (drop (unat (numeral a :: u32)) xs))
      else None)"
  by (simp add: slice_def)

lemma slice_0_numeral:
  "slice xs 0 (numeral b) =
     (if unat (numeral b :: u32) \<le> length xs then Some (take (unat (numeral b :: u32)) xs) else None)"
  by (simp add: slice_def)

lemma newFile_header:
  "take 4 (newFile n s k v) = PutUint32 magicNumber"
  "take 4 (drop 8 (newFile n s k v)) = PutUint32 n"
  "take 4 (drop 12 (newFile n s k v)) = PutUint32 0"
  "take 4 (drop 16 (newFile n s k v)) = PutUint32 s"
  "take 4 (drop 20 (newFile n s k v)) = PutUint32 k"
  "take 4 (drop 24 (newFile n s k v)) = PutUint32 v"
  by (simp_all add: newFile_def newHeader_def Let_def)

lemma length_newFile: "length (newFile n s k v) = 28 + (unat (headerSize + n * s) - 28)"
  by (simp add: newFile_def Let_def)

lemma Open_nonempty:
  assumes "28 \<le> length file" and "Uint32 (take 4 file) = magicNumber"
  shows "Open file keySz valueSz =
           Inr \<lparr>data = file,
                keySize = Uint32 (take 4 (drop 20 file)), valueSize = Uint32 (take 4 (drop 24 file)),
                slotSize = Uint32 (take 4 (drop 16 file)), numSlots = Uint32 (take 4 (drop 8 file)),
                usedSlots = Uint32 (take 4 (drop 12 file))\<rparr>"
  using assms by (auto simp: Open_def slice_numeral slice_0_numeral)

lemma Open_empty:
  "Open [] keySz valueSz =
     Inr \<lparr>data = newFile 1024 (1 + keySz + valueSz) keySz valueSz,
          keySize = keySz, valueSize = valueSz, slotSize = 1 + keySz + valueSz,
          numSlots = 1024, usedSlots = 0\<rparr>"
proof -
  let ?f = "newFile 1024 (1 + keySz + valueSz) keySz valueSz"
  have len: "28 \<le> length ?f" by (simp add: length_newFile)
  have "?f \<noteq> []" using len by auto
  moreover have "Uint32 (take 4 ?f) = magicNumber" by (simp add: newFile_header)
  ultimately show ?thesis
    using len by (simp add: Open_def slice_numeral slice_0_numeral newFile_header)
qed

lemma file2_bytes:
  "file2 = [0x70, 0x68, 0x73, 0x68, 0, 0, 0, 1, 0, 0, 0, 2, 0, 0, 0, 0,
            0, 0, 0, 3, 0, 0, 0, 1, 0, 0, 0, 1, 0, 0, 0, 0, 0, 0]"
  by code_simp

subsection \<open>The loops as a probe followed by an action\<close>

lemma put_loop_probe:
  "put_loop ph key val retryCount idx i =
     (case probe ph key idx i of
        Fault \<Rightarrow> (Some Panic, ph)
      | Full \<Rightarrow> (Some CapacityError, ph)
      | Free slotStart \<Rightarrow>
          if load_exceeded (usedSlots ph + 1) (numSlots ph) then
            (case resize ph of
               Inl e \<Rightarrow> (Some e, ph)
             | Inr ph' \<Rightarrow> putWithRetry ph' key val (retryCount + 1))
          else
            insert_slot ph slotStart key val
      | Hit slotStart \<Rightarrow>
          (case copy_at (data ph) (slotStart + 1 + keySize ph) val of
             None \<Rightarrow> (Some Panic, ph)
           | Some d \<Rightarrow> (None, ph\<lparr>data := d\<rparr>)))"
proof (induction ph key idx i rule: probe.induct)
  case (1 ph key idx i)
  show ?case
    apply (subst put_loop.simps)
    apply (subst probe.simps)
    using 1
    apply (simp add: Let_def split: option.splits)
    done
qed

lemma get_loop_probe:
  "get_loop ph key idx i =
     (case probe ph key idx i of
        Fault \<Rightarrow> Inl Panic
      | Full \<Rightarrow> Inr ([], False)
      | Free slotStart \<Rightarrow> Inr ([], False)
      | Hit slotStart \<Rightarrow>
          (case slice (data ph) (slotStart + 1 + keySize ph) (slotStart + slotSize ph) of
             None \<Rightarrow> Inl Panic
           | Some v \<Rightarrow>
               Inr (take (unat (valueSize ph)) v @ replicate (unat (valueSize ph) - length v) 0,
                    True)))"
proof (induction ph key idx i rule: probe.induct)
  case (1 ph key idx i)
  show ?case
    apply (subst get_loop.simps)
    apply (subst probe.simps)
    using 1
    apply (simp add: Let_def split: option.splits)
    done
qed

subsection \<open>The length checks\<close>

lemma Put_validation:
  assumes "length key \<noteq> unat (keySize ph) \<or> length val \<noteq> unat (valueSize ph)"
    and "length key < 2 ^ 32" and "length val < 2 ^ 32"
  shows "Put ph key val = (Some ValidationError, ph)"
proof -
  have "(of_nat (length key) :: u32) \<noteq> keySize ph \<or> (of_nat (length val) :: u32) \<noteq> valueSize ph"
    using assms by (auto dest: of_nat_inverse)
  then show ?thesis by (auto simp: Put_def)
qed

lemma Get_validation:
  assumes "length key \<noteq> unat (keySize ph)" and "length key < 2 ^ 32"
  shows "Get ph key = Inr ([], False)"
proof -
  have "(of_nat (length key) :: u32) \<noteq> keySize ph"
    using assms by (auto dest: of_nat_inverse)
  then show ?thesis by (simp add: Get_def)
qed

lemma rehash_probe_probe_free:
  "rehash_probe t n s k key val idx j =
     (case probe_free t n s idx j of
        Fault \<Rightarrow> Inl Panic
      | Full \<Rightarrow> Inl ResizeFailed
      | Free slotStart \<Rightarrow>
          (case write_slot t slotStart k key val of
             None \<Rightarrow> Inl Panic
           | Some t1 \<Rightarrow> (case bump_used t1 of None \<Rightarrow> Inl Panic | Some t2 \<Rightarrow> Inr t2))
      | Hit slotStart \<Rightarrow> Inl Panic)"
proof (induction t n s idx j rule: probe_free.induct)
  case (1 t n s idx j)
  show ?case
    apply (subst rehash_probe.simps)
    apply (subst probe_free.simps)
    using 1
    apply (simp add: Let_def split: option.splits)
    done
qed

lemma putWithRetry_unfold:
  "putWithRetry ph key val retryCount =
     (if 3 < retryCount then (Some RetryExhausted, ph)
      else if numSlots ph = 0 then (Some Panic, ph)
      else case probe ph key (hashKey key mod numSlots ph) 0 of
        Fault \<Rightarrow> (Some Panic, ph)
      | Full \<Rightarrow> (Some CapacityError, ph)
      | Free slotStart \<Rightarrow>
          if load_exceeded (usedSlots ph + 1) (numSlots ph) then
            (case resize ph of
               Inl e \<Rightarrow> (Some e, ph)
             | Inr ph' \<Rightarrow> putWithRetry ph' key val (retryCount + 1))
          else
            insert_slot ph slotStart key val
      | Hit slotStart \<Rightarrow>
          (case copy_at (data ph) (slotStart + 1 + keySize ph) val of
             None \<Rightarrow> (Some Panic, ph)
           | Some d \<Rightarrow> (None, ph\<lparr>data := d\<rparr>)))"
  by (subst putWithRetry.simps) (simp only: put_loop_probe)

subsection \<open>Which errors can be returned\<close>

lemma rehash_probe_errors:
  "rehash_probe t n s k key val idx j = Inl e \<Longrightarrow> e = Panic \<or> e = ResizeFailed"
  by (auto simp: rehash_probe_probe_free split: probe_result.splits option.splits)

lemma rehash_errors:
  "rehash ph n t i c = Inl e \<Longrightarrow> e = Panic \<or> e = ResizeFailed"
proof (induction ph n t i c rule: rehash.induct)
  case (1 ph n t i c)
  let ?st = "headerSize + of_nat i * slotSize ph"
  let ?k = "slice (data ph) (?st + 1) (?st + 1 + keySize ph)"
  let ?v = "slice (data ph) (?st + 1 + keySize ph) (?st + slotSize ph)"
  show ?case
  proof (cases "i < unat (numSlots ph) \<and> c < usedSlots ph")
    case False
    with "1.prems" show ?thesis by (subst (asm) rehash.simps) auto
  next
    case go: True
    show ?thesis
    proof (cases "unat ?st < length (data ph)")
      case False
      with go "1.prems" show ?thesis by (subst (asm) rehash.simps) (auto simp: Let_def)
    next
      case inb: True
      show ?thesis
      proof (cases "data ph ! unat ?st = 1")
        case False
        with go inb "1.prems" have "rehash ph n t (i + 1) c = Inl e"
          by (subst (asm) rehash.simps) (simp add: Let_def)
        with "1.IH"(2)[OF go refl] inb False show ?thesis by simp
      next
        case occ: True
        show ?thesis
        proof (cases "\<exists>key val. ?k = Some key \<and> ?v = Some val \<and> n \<noteq> 0")
          case False
          with go inb occ "1.prems" show ?thesis
            by (subst (asm) rehash.simps) (auto simp: Let_def split: option.splits)
        next
          case True
          then obtain key val where kv: "?k = Some key" "?v = Some val" "n \<noteq> 0" by blast
          show ?thesis
          proof (cases "rehash_probe t n (slotSize ph) (keySize ph) key val (hashKey key mod n) 0")
            case (Inl e')
            with go inb occ kv "1.prems" have "e = e'"
              by (subst (asm) rehash.simps) (simp add: Let_def)
            with Inl show ?thesis by (auto dest: rehash_probe_errors)
          next
            case (Inr t')
            with go inb occ kv "1.prems" have "rehash ph n t' (i + 1) (c + 1) = Inl e"
              by (subst (asm) rehash.simps) (simp add: Let_def)
            with "1.IH"(1)[OF go refl _ occ refl, of key val t'] inb kv Inr show ?thesis by simp
          qed
        qed
      qed
    qed
  qed
qed

lemma resize_errors:
  "resize ph = Inl e \<Longrightarrow> e = Panic \<or> e = ResizeFailed"
  by (auto simp: resize_def Let_def split: sum.splits option.splits dest: rehash_errors)

lemma insert_slot_errors:
  "fst (insert_slot ph w key val) = Some e \<Longrightarrow> e = Panic"
  by (auto simp: insert_slot_def Let_def split: option.splits)

lemma putWithRetry_errors:
  "fst (putWithRetry ph key val r) \<in>
     {None, Some Panic, Some CapacityError, Some RetryExhausted, Some ResizeFailed}"
proof (induction "4 - r" arbitrary: r ph)
  case 0
  then have "3 < r" by simp
  then show ?case by (subst putWithRetry_unfold) simp
next
  case (Suc m)
  then have IH: "\<And>ph'. fst (putWithRetry ph' key val (r + 1)) \<in>
     {None, Some Panic, Some CapacityError, Some RetryExhausted, Some ResizeFailed}"
    by simp
  show ?case
    apply (subst putWithRetry_unfold)
    using IH
    apply (auto split: probe_result.splits option.splits sum.splits
                dest: resize_errors insert_slot_errors)
    done
qed

section \<open>Reading and writing slots\<close>

subsection \<open>Overwriting a range of bytes\<close>

lemma length_overwrite_at [simp]:
  "a + length ys \<le> length xs \<Longrightarrow> length (overwrite_at xs a ys) = length xs"
  by (simp add: overwrite_at_def)

lemma nth_overwrite_at:
  assumes "a + length ys \<le> length xs" and "i < length xs"
  shows "overwrite_at xs a ys ! i = (if a \<le> i \<and> i < a + length ys then ys ! (i - a) else xs ! i)"
  using assms by (auto simp: overwrite_at_def nth_append)

lemma take_drop_cong:
  assumes "length xs = length ys" and "o' + k \<le> length xs"
    and "\<And>i. o' \<le> i \<Longrightarrow> i < o' + k \<Longrightarrow> xs ! i = ys ! i"
  shows "take k (drop o' xs) = take k (drop o' ys)"
proof (rule nth_equalityI)
  show "length (take k (drop o' xs)) = length (take k (drop o' ys))"
    using assms(1) by simp
next
  fix i assume "i < length (take k (drop o' xs))"
  then have i: "i < k" by simp
  with assms(1,2) have "take k (drop o' xs) ! i = xs ! (o' + i)"
    and "take k (drop o' ys) ! i = ys ! (o' + i)" by simp_all
  with assms(3)[of "o' + i"] i show "take k (drop o' xs) ! i = take k (drop o' ys) ! i"
    by simp
qed

lemma read_overwrite_at_outside:
  assumes "a + length ys \<le> length xs" and "o' + k \<le> length xs"
    and "o' + k \<le> a \<or> a + length ys \<le> o'"
  shows "take k (drop o' (overwrite_at xs a ys)) = take k (drop o' xs)"
  using assms by (intro take_drop_cong) (auto simp: nth_overwrite_at)

lemma read_overwrite_at_inside:
  assumes "a + length ys \<le> length xs" and "a \<le> o'" and "o' + k \<le> a + length ys"
  shows "take k (drop o' (overwrite_at xs a ys)) = take k (drop (o' - a) ys)"
proof (rule nth_equalityI)
  show "length (take k (drop o' (overwrite_at xs a ys))) = length (take k (drop (o' - a) ys))"
    using assms by simp
next
  fix i assume "i < length (take k (drop o' (overwrite_at xs a ys)))"
  then have i: "i < k" by simp
  with assms have "take k (drop o' (overwrite_at xs a ys)) ! i = overwrite_at xs a ys ! (o' + i)"
    by simp
  also have "\<dots> = ys ! (o' + i - a)"
    using assms i by (simp add: nth_overwrite_at)
  also have "\<dots> = take k (drop (o' - a) ys) ! i"
    using assms i by simp
  finally show "take k (drop o' (overwrite_at xs a ys)) ! i = take k (drop (o' - a) ys) ! i" .
qed

lemma copy_at_overwrite:
  "unat lo + length src \<le> length xs \<Longrightarrow> copy_at xs lo src = Some (overwrite_at xs (unat lo) src)"
  by (simp add: copy_at_def overwrite_at_def)

lemma put_used_overwrite:
  "16 \<le> length xs \<Longrightarrow> put_used xs v = Some (overwrite_at xs 12 (PutUint32 v))"
  by (simp add: put_used_def overwrite_at_def)

lemma overwrite_at_status_key_value:
  assumes "a + 1 + length key + length val \<le> length xs"
  shows "(overwrite_at (overwrite_at xs (a + 1) key) (a + 1 + length key) val)[a := 1]
           = overwrite_at xs a (1 # key @ val)"
proof -
  have "a < length xs" using assms by simp
  then have "take (a + 1) xs = take a xs @ [xs ! a]"
    by (simp add: take_Suc_conv_app_nth)
  then show ?thesis
    using assms by (simp add: overwrite_at_def list_update_append add.commute add.left_commute)
qed

subsection \<open>Offsets of a well-formed table do not wrap\<close>

lemma unat_add32: "unat a + unat b < 2 ^ 32 \<Longrightarrow> unat (a + b :: u32) = unat a + unat b"
  using unat_add_lem[of a b] by simp

lemma unat_mult32: "unat a * unat b < 2 ^ 32 \<Longrightarrow> unat (a * b :: u32) = unat a * unat b"
  using unat_mult_lem[of a b] by simp

lemma unat_of_nat32: "i < 2 ^ 32 \<Longrightarrow> unat (of_nat i :: u32) = i"
  by (simp add: unat_of_nat)

lemma geometryD:
  assumes "geometry ph"
  shows "0 < unat (numSlots ph)" and "unat (numSlots ph) < 2 ^ 31"
    and "unat (slotSize ph) = 1 + unat (keySize ph) + unat (valueSize ph)"
    and "length (data ph) = 28 + unat (numSlots ph) * unat (slotSize ph)"
    and "length (data ph) < 2 ^ 32"
  using assms unfolding geometry_def by blast+

lemma slot_end_le:
  assumes "geometry ph" and "j < unat (numSlots ph)"
  shows "slot_start ph j + unat (slotSize ph) \<le> length (data ph)"
proof -
  have "Suc j * unat (slotSize ph) \<le> unat (numSlots ph) * unat (slotSize ph)"
    using assms(2) by (intro mult_le_mono1) simp
  then show ?thesis using geometryD(4)[OF assms(1)] by (simp add: slot_start_def)
qed

lemma slot_start_less:
  assumes "geometry ph" and "j < unat (numSlots ph)"
  shows "slot_start ph j < length (data ph)"
  using slot_end_le[OF assms] geometryD(3)[OF assms(1)] by linarith

lemma unat_slot_word:
  assumes "geometry ph" and "unat c < unat (numSlots ph)"
  shows "unat (headerSize + c * slotSize ph) = slot_start ph (unat c)"
proof -
  have le: "slot_start ph (unat c) + unat (slotSize ph) \<le> length (data ph)"
    using assms by (rule slot_end_le)
  have lt: "length (data ph) < 2 ^ 32" using assms(1) by (rule geometryD)
  have "unat c * unat (slotSize ph) < 2 ^ 32"
    using le lt by (simp add: slot_start_def)
  then have m: "unat (c * slotSize ph) = unat c * unat (slotSize ph)" by (rule unat_mult32)
  have "unat headerSize + unat (c * slotSize ph) < 2 ^ 32"
    using le lt m by (simp add: slot_start_def headerSize_def)
  then have "unat (headerSize + c * slotSize ph) = unat headerSize + unat (c * slotSize ph)"
    by (rule unat_add32)
  then show ?thesis using m by (simp add: slot_start_def headerSize_def)
qed

lemma unat_current_idx:
  assumes "geometry ph" and "unat idx < unat (numSlots ph)" and "i < unat (numSlots ph)"
  shows "unat ((idx + of_nat i) mod numSlots ph) = (unat idx + i) mod unat (numSlots ph)"
proof -
  have n: "unat (numSlots ph) < 2 ^ 31" using assms(1) by (rule geometryD)
  have i: "unat (of_nat i :: u32) = i" using assms(3) n by (intro unat_of_nat32) simp
  have "unat idx + unat (of_nat i :: u32) < 2 ^ 32" using assms(2,3) n i by simp
  then have "unat (idx + of_nat i) = unat idx + i" using i by (simp add: unat_add32)
  then show ?thesis by (simp add: unat_mod)
qed

lemma unat_slot_offsets:
  assumes "geometry ph" and "j < unat (numSlots ph)" and "unat w = slot_start ph j"
  shows "unat (w + 1) = slot_start ph j + 1"
    and "unat (w + 1 + keySize ph) = slot_start ph j + 1 + unat (keySize ph)"
    and "unat (w + slotSize ph) = slot_start ph j + unat (slotSize ph)"
proof -
  have le: "slot_start ph j + unat (slotSize ph) \<le> length (data ph)"
    using assms(1,2) by (rule slot_end_le)
  have lt: "length (data ph) < 2 ^ 32" using assms(1) by (rule geometryD)
  have s: "unat (slotSize ph) = 1 + unat (keySize ph) + unat (valueSize ph)"
    using assms(1) by (rule geometryD)
  show 1: "unat (w + 1) = slot_start ph j + 1"
    using le lt s assms(3) by (subst unat_add32) simp_all
  show "unat (w + 1 + keySize ph) = slot_start ph j + 1 + unat (keySize ph)"
    using le lt s 1 by (subst unat_add32) simp_all
  show "unat (w + slotSize ph) = slot_start ph j + unat (slotSize ph)"
    using le lt s assms(3) by (subst unat_add32) simp_all
qed

subsection \<open>What the probe finds\<close>

lemma probe_step:
  assumes g: "geometry ph" and idx: "unat idx < unat (numSlots ph)" and i: "i < unat (numSlots ph)"
  defines "p \<equiv> (unat idx + i) mod unat (numSlots ph)"
  defines "w \<equiv> headerSize + (idx + of_nat i) mod numSlots ph * slotSize ph"
  shows "unat w = slot_start ph p"
    and "probe ph key idx i =
           (if status_at ph p = 0 then Free w
            else if status_at ph p = 1 \<and> key_at ph p = key then Hit w
            else probe ph key idx (i + 1))"
proof -
  have p: "p < unat (numSlots ph)" using i by (simp add: p_def)
  have c: "unat ((idx + of_nat i) mod numSlots ph) = p"
    using g idx i by (simp add: unat_current_idx p_def)
  with p have "unat ((idx + of_nat i) mod numSlots ph) < unat (numSlots ph)" by simp
  from unat_slot_word[OF g this] c show w: "unat w = slot_start ph p" by (simp add: w_def)
  have inb: "unat w < length (data ph)" using slot_start_less[OF g p] w by simp
  have st: "data ph ! unat w = status_at ph p" by (simp add: status_at_def w)
  have le: "slot_start ph p + unat (slotSize ph) \<le> length (data ph)" using g p by (rule slot_end_le)
  have s: "unat (slotSize ph) = 1 + unat (keySize ph) + unat (valueSize ph)" using g by (rule geometryD)
  have "slice (data ph) (w + 1) (w + 1 + keySize ph) = Some (key_at ph p)"
    using unat_slot_offsets[OF g p w] le s by (simp add: slice_def key_at_def)
  then show "probe ph key idx i =
           (if status_at ph p = 0 then Free w
            else if status_at ph p = 1 \<and> key_at ph p = key then Hit w
            else probe ph key idx (i + 1))"
    using i inb st by (subst probe.simps) (auto simp: Let_def w_def)
qed

lemma passes_empty: "d \<le> i \<Longrightarrow> passes ph key h i d"
  by (auto simp: passes_def)

lemma passes_step:
  assumes "passes ph key h (Suc i) d"
    and "status_at ph ((h + i) mod unat (numSlots ph)) \<noteq> 0"
    and "\<not> (status_at ph ((h + i) mod unat (numSlots ph)) = 1 \<and>
            key_at ph ((h + i) mod unat (numSlots ph)) = key)"
  shows "passes ph key h i d"
  unfolding passes_def
proof (intro allI impI)
  fix d' assume d': "i \<le> d' \<and> d' < d"
  show "status_at ph ((h + d') mod unat (numSlots ph)) \<noteq> 0 \<and>
        \<not> (status_at ph ((h + d') mod unat (numSlots ph)) = 1 \<and>
           key_at ph ((h + d') mod unat (numSlots ph)) = key)"
  proof (cases "d' = i")
    case True
    with assms(2,3) show ?thesis by simp
  next
    case False
    with d' have "Suc i \<le> d' \<and> d' < d" by simp
    with assms(1) show ?thesis unfolding passes_def by blast
  qed
qed

lemma stops_at_here:
  "i < unat (numSlots ph) \<Longrightarrow> unat w = slot_start ph ((h + i) mod unat (numSlots ph)) \<Longrightarrow>
   stops_at ph key h i w i"
  by (simp add: stops_at_def passes_empty)

lemma stops_at_step:
  assumes "stops_at ph key h (Suc i) w d"
    and "status_at ph ((h + i) mod unat (numSlots ph)) \<noteq> 0"
    and "\<not> (status_at ph ((h + i) mod unat (numSlots ph)) = 1 \<and>
            key_at ph ((h + i) mod unat (numSlots ph)) = key)"
  shows "stops_at ph key h i w d"
  using assms passes_step[of ph key h i d] by (simp add: stops_at_def)

lemma probe_cases:
  assumes g: "geometry ph" and idx: "unat idx < unat (numSlots ph)"
  shows "probe ph key idx i \<noteq> Fault"
    and "probe ph key idx i = Full \<Longrightarrow> passes ph key (unat idx) i (unat (numSlots ph))"
    and "probe ph key idx i = Free w \<Longrightarrow>
           \<exists>d. stops_at ph key (unat idx) i w d \<and>
               status_at ph ((unat idx + d) mod unat (numSlots ph)) = 0"
    and "probe ph key idx i = Hit w \<Longrightarrow>
           \<exists>d. stops_at ph key (unat idx) i w d \<and>
               status_at ph ((unat idx + d) mod unat (numSlots ph)) = 1 \<and>
               key_at ph ((unat idx + d) mod unat (numSlots ph)) = key"
proof -
  let ?n = "unat (numSlots ph)"
  let ?h = "unat idx"
  have "probe ph key idx i \<noteq> Fault \<and>
        (probe ph key idx i = Full \<longrightarrow> passes ph key ?h i ?n) \<and>
        (\<forall>w. probe ph key idx i = Free w \<longrightarrow>
           (\<exists>d. stops_at ph key ?h i w d \<and> status_at ph ((?h + d) mod ?n) = 0)) \<and>
        (\<forall>w. probe ph key idx i = Hit w \<longrightarrow>
           (\<exists>d. stops_at ph key ?h i w d \<and> status_at ph ((?h + d) mod ?n) = 1 \<and>
                key_at ph ((?h + d) mod ?n) = key))"
  proof (induction "?n - i" arbitrary: i)
    case 0
    then have ge: "?n \<le> i" by simp
    then have "probe ph key idx i = Full" by (subst probe.simps) simp
    with passes_empty[OF ge] show ?case by simp
  next
    case (Suc m)
    then have i: "i < ?n" by simp
    let ?p = "(?h + i) mod ?n"
    let ?w = "headerSize + (idx + of_nat i) mod numSlots ph * slotSize ph"
    note step = probe_step(1)[OF g idx i] probe_step(2)[OF g idx i, of key]
    have here: "stops_at ph key ?h i ?w i" using i step(1) by (rule stops_at_here)
    show ?case
    proof (cases "status_at ph ?p = 0")
      case True
      then have "probe ph key idx i = Free ?w" using step(2) by simp
      with here True show ?thesis by auto
    next
      case nz: False
      show ?thesis
      proof (cases "status_at ph ?p = 1 \<and> key_at ph ?p = key")
        case True
        then have "probe ph key idx i = Hit ?w" using step(2) nz by simp
        with here True show ?thesis by auto
      next
        case False
        have eq: "probe ph key idx i = probe ph key idx (Suc i)" using step(2) nz False by simp
        have ext: "\<And>w d. stops_at ph key ?h (Suc i) w d \<Longrightarrow> stops_at ph key ?h i w d"
          using nz False by (blast intro: stops_at_step)
        have ext': "passes ph key ?h (Suc i) ?n \<Longrightarrow> passes ph key ?h i ?n"
          using nz False by (blast intro: passes_step)
        have "m = ?n - Suc i" using Suc(2) by simp
        from Suc(1)[OF this] show ?thesis
          unfolding eq using ext ext' by blast
      qed
    qed
  qed
  then show "probe ph key idx i \<noteq> Fault"
    and "probe ph key idx i = Full \<Longrightarrow> passes ph key (unat idx) i (unat (numSlots ph))"
    and "probe ph key idx i = Free w \<Longrightarrow>
           \<exists>d. stops_at ph key (unat idx) i w d \<and>
               status_at ph ((unat idx + d) mod unat (numSlots ph)) = 0"
    and "probe ph key idx i = Hit w \<Longrightarrow>
           \<exists>d. stops_at ph key (unat idx) i w d \<and>
               status_at ph ((unat idx + d) mod unat (numSlots ph)) = 1 \<and>
               key_at ph ((unat idx + d) mod unat (numSlots ph)) = key"
    by blast+
qed

subsection \<open>Get finds what is stored\<close>

lemma probe_pos_inj:
  fixes n h d1 d2 :: nat
  assumes "d1 < n" and "d2 < n" and "(h + d1) mod n = (h + d2) mod n"
  shows "d1 = d2"
proof -
  have *: "a = b" if ab: "a \<le> b" and bn: "b < n" and m: "(h + b) mod n = (h + a) mod n"
    for a b :: nat
  proof -
    have "h + a \<le> h + b" using ab by simp
    with m obtain q where q: "h + b = h + a + n * q"
      by (rule mod_eq_nat1E)
    then have ba: "b = a + n * q" by simp
    have "q = 0"
    proof (rule ccontr)
      assume "q \<noteq> 0"
      then have "n * 1 \<le> n * q" by (intro mult_le_mono2) simp
      with ba bn show False by simp
    qed
    with ba show ?thesis by simp
  qed
  show ?thesis
  proof (cases "d1 \<le> d2")
    case True
    from *[OF True assms(2)] assms(3) show ?thesis by simp
  next
    case False
    then have "d2 \<le> d1" by simp
    from *[OF this assms(1)] assms(3) show ?thesis by simp
  qed
qed

lemma length_key_at:
  assumes "geometry ph" and "j < unat (numSlots ph)"
  shows "length (key_at ph j) = unat (keySize ph)"
  using slot_end_le[OF assms] geometryD(3)[OF assms(1)] by (simp add: key_at_def)

lemma length_value_at:
  assumes "geometry ph" and "j < unat (numSlots ph)"
  shows "length (value_at ph j) = unat (valueSize ph)"
  using slot_end_le[OF assms] geometryD(3)[OF assms(1)] by (simp add: value_at_def)

lemma home_less: "geometry ph \<Longrightarrow> home ph key < unat (numSlots ph)"
  by (simp add: home_def unat_mod geometryD(1))

lemma numSlots_nonzero: "geometry ph \<Longrightarrow> numSlots ph \<noteq> 0"
  using geometryD(1)[of ph] by auto

text \<open>The probe for a key that the table holds stops at the slot of that key.\<close>

lemma probe_finds_stored:
  assumes g: "geometry ph" and u: "keys_unique ph" and pp: "probe_paths ph"
    and j: "j \<in> occupied ph"
  shows "\<exists>w. probe ph (key_at ph j) (hashKey (key_at ph j) mod numSlots ph) 0 = Hit w \<and>
             unat w = slot_start ph j"
proof -
  let ?n = "unat (numSlots ph)"
  let ?key = "key_at ph j"
  let ?idx = "hashKey ?key mod numSlots ph"
  let ?h = "unat ?idx"
  have h: "?h < ?n" using home_less[OF g, of ?key] by (simp add: home_def)
  have jn: "j < ?n" and js: "status_at ph j = 1" using j by (simp_all add: occupied_def)
  from pp j obtain d where d: "d < ?n" "(?h + d) mod ?n = j"
    and path: "\<And>i. i < d \<Longrightarrow> status_at ph ((?h + i) mod ?n) \<noteq> 0"
    unfolding probe_paths_def pos_def home_def by blast
  note pc = probe_cases[OF g h, of ?key 0]
  show ?thesis
  proof (cases "probe ph ?key ?idx 0")
    case Fault
    with pc(1) show ?thesis by simp
  next
    case Full
    from pc(2)[OF Full] d js show ?thesis unfolding passes_def by auto
  next
    case (Free w)
    from pc(3)[OF Free] obtain d' where d': "stops_at ph ?key ?h 0 w d'"
      and e: "status_at ph ((?h + d') mod ?n) = 0" by blast
    have False
    proof (cases "d' < d")
      case True
      with path e show False by blast
    next
      case False
      show False
      proof (cases "d' = d")
        case True
        with e d js show False by simp
      next
        case ne: False
        with False have "d < d'" by simp
        with d' have "status_at ph ((?h + d) mod ?n) \<noteq> 0 \<and>
            \<not> (status_at ph ((?h + d) mod ?n) = 1 \<and> key_at ph ((?h + d) mod ?n) = ?key)"
          unfolding stops_at_def passes_def by simp
        with d js show False by simp
      qed
    qed
    then show ?thesis ..
  next
    case (Hit w)
    from pc(4)[OF Hit] obtain d' where d': "stops_at ph ?key ?h 0 w d'"
      and o: "status_at ph ((?h + d') mod ?n) = 1"
      and k: "key_at ph ((?h + d') mod ?n) = ?key" by blast
    have d'n: "d' < ?n" using d' by (simp add: stops_at_def)
    then have "(?h + d') mod ?n \<in> occupied ph" using o by (simp add: occupied_def)
    with u j k have "(?h + d') mod ?n = j" unfolding keys_unique_def by blast
    with d(2) have "(?h + d') mod ?n = (?h + d) mod ?n" by simp
    with d'n d(1) have "d' = d" by (rule probe_pos_inj)
    with d' d(2) have "unat w = slot_start ph j" by (simp add: stops_at_def)
    with Hit show ?thesis by simp
  qed
qed

lemma Get_stored:
  assumes g: "geometry ph" and u: "keys_unique ph" and pp: "probe_paths ph"
    and st: "stored ph key val"
  shows "Get ph key = Inr (val, True)"
proof -
  from st obtain j where j: "j \<in> occupied ph" and k: "key_at ph j = key"
    and v: "value_at ph j = val" unfolding stored_def by blast
  have jn: "j < unat (numSlots ph)" using j by (simp add: occupied_def)
  from probe_finds_stored[OF g u pp j] k obtain w
    where w: "probe ph key (hashKey key mod numSlots ph) 0 = Hit w" "unat w = slot_start ph j"
    by auto
  have len: "(of_nat (length key) :: u32) = keySize ph"
    using length_key_at[OF g jn] k by auto
  have le: "slot_start ph j + unat (slotSize ph) \<le> length (data ph)" using g jn by (rule slot_end_le)
  have s: "unat (slotSize ph) = 1 + unat (keySize ph) + unat (valueSize ph)" using g by (rule geometryD)
  have "slice (data ph) (w + 1 + keySize ph) (w + slotSize ph) = Some (value_at ph j)"
    using unat_slot_offsets[OF g jn w(2)] le s by (simp add: slice_def value_at_def)
  then show ?thesis
    using w(1) len v length_value_at[OF g jn] numSlots_nonzero[OF g]
    by (simp add: Get_def get_loop_probe)
qed

subsection \<open>Slots do not overlap\<close>

lemma slot_start_ge: "28 \<le> slot_start ph j"
  by (simp add: slot_start_def)

lemma slot_disjoint:
  assumes "j \<noteq> p"
  shows "slot_start ph j + unat (slotSize ph) \<le> slot_start ph p \<or>
         slot_start ph p + unat (slotSize ph) \<le> slot_start ph j"
proof (cases "j < p")
  case True
  then have "Suc j * unat (slotSize ph) \<le> p * unat (slotSize ph)"
    by (intro mult_le_mono1) simp
  then show ?thesis by (simp add: slot_start_def)
next
  case False
  with assms have "Suc p * unat (slotSize ph) \<le> j * unat (slotSize ph)"
    by (intro mult_le_mono1) simp
  then show ?thesis by (simp add: slot_start_def)
qed

subsection \<open>The handle after an overwrite of a value\<close>

lemma set_value_fields [simp]:
  "keySize (set_value ph p val) = keySize ph"
  "valueSize (set_value ph p val) = valueSize ph"
  "slotSize (set_value ph p val) = slotSize ph"
  "numSlots (set_value ph p val) = numSlots ph"
  "usedSlots (set_value ph p val) = usedSlots ph"
  "slot_start (set_value ph p val) j = slot_start ph j"
  by (simp_all add: set_value_def slot_start_def)

lemma set_value_length:
  assumes "geometry ph" and "p < unat (numSlots ph)" and "length val = unat (valueSize ph)"
  shows "length (data (set_value ph p val)) = length (data ph)"
  using slot_end_le[OF assms(1,2)] geometryD(3)[OF assms(1)] assms(3)
  by (simp add: set_value_def)

lemma set_value_slots:
  assumes g: "geometry ph" and p: "p < unat (numSlots ph)" and v: "length val = unat (valueSize ph)"
    and j: "j < unat (numSlots ph)"
  shows "status_at (set_value ph p val) j = status_at ph j"
    and "key_at (set_value ph p val) j = key_at ph j"
    and "value_at (set_value ph p val) j = (if j = p then val else value_at ph j)"
proof -
  let ?a = "slot_start ph p + 1 + unat (keySize ph)"
  have s: "unat (slotSize ph) = 1 + unat (keySize ph) + unat (valueSize ph)" using g by (rule geometryD)
  have lp: "slot_start ph p + unat (slotSize ph) \<le> length (data ph)" using g p by (rule slot_end_le)
  have lj: "slot_start ph j + unat (slotSize ph) \<le> length (data ph)" using g j by (rule slot_end_le)
  have fit: "?a + length val \<le> length (data ph)" using lp s v by simp
  have d: "data (set_value ph p val) = overwrite_at (data ph) ?a val" by (simp add: set_value_def)
  have dis: "j \<noteq> p \<Longrightarrow> slot_start ph j + unat (slotSize ph) \<le> slot_start ph p \<or>
         slot_start ph p + unat (slotSize ph) \<le> slot_start ph j" by (rule slot_disjoint)
  show "status_at (set_value ph p val) j = status_at ph j"
  proof -
    have "slot_start ph j < ?a \<or> ?a + length val \<le> slot_start ph j"
      using dis s v by (cases "j = p") auto
    then show ?thesis
      using fit lj s by (auto simp: status_at_def d nth_overwrite_at)
  qed
  show "key_at (set_value ph p val) j = key_at ph j"
  proof -
    have "slot_start ph j + 1 + unat (keySize ph) \<le> ?a \<or> ?a + length val \<le> slot_start ph j + 1"
      using dis s v by (cases "j = p") auto
    then show ?thesis
      unfolding key_at_def d set_value_fields
      using fit lj s by (intro read_overwrite_at_outside) auto
  qed
  show "value_at (set_value ph p val) j = (if j = p then val else value_at ph j)"
  proof (cases "j = p")
    case True
    have "take (unat (valueSize ph)) (drop ?a (overwrite_at (data ph) ?a val))
            = take (unat (valueSize ph)) (drop (?a - ?a) val)"
      using fit v by (intro read_overwrite_at_inside) auto
    with True v show ?thesis by (simp add: value_at_def d)
  next
    case False
    have "slot_start ph j + 1 + unat (keySize ph) + unat (valueSize ph) \<le> ?a \<or>
          ?a + length val \<le> slot_start ph j + 1 + unat (keySize ph)"
      using dis[OF False] s v by auto
    then have "take (unat (valueSize ph)) (drop (slot_start ph j + 1 + unat (keySize ph))
                  (overwrite_at (data ph) ?a val))
             = take (unat (valueSize ph)) (drop (slot_start ph j + 1 + unat (keySize ph)) (data ph))"
      using fit lj s by (intro read_overwrite_at_outside) auto
    with False show ?thesis by (simp add: value_at_def d)
  qed
qed

lemma header_field_outside:
  assumes "a + length ys \<le> length xs" and "28 \<le> a" and "o' + 4 \<le> 28"
  shows "take 4 (drop o' (overwrite_at xs a ys)) = take 4 (drop o' xs)"
  using assms by (intro read_overwrite_at_outside) auto

lemma header_ok_overwrite:
  assumes h: "header_ok ph" and fit: "a + length ys \<le> length (data ph)" and a: "28 \<le> a"
    and f: "keySize ph' = keySize ph" "valueSize ph' = valueSize ph" "slotSize ph' = slotSize ph"
      "numSlots ph' = numSlots ph" "usedSlots ph' = usedSlots ph"
    and d: "data ph' = overwrite_at (data ph) a ys"
  shows "header_ok ph'"
proof -
  have r: "\<And>o'. o' + 4 \<le> 28 \<Longrightarrow>
      take 4 (drop o' (data ph')) = take 4 (drop o' (data ph))"
    unfolding d using fit a by (rule header_field_outside)
  have r0: "take 4 (data ph') = take 4 (data ph)" using r[of 0] by simp
  have len: "length (data ph') = length (data ph)" unfolding d using fit by simp
  show ?thesis
    using h unfolding header_ok_def f len by (simp add: r r0)
qed

lemma set_value_header_ok:
  assumes g: "geometry ph" and p: "p < unat (numSlots ph)" and v: "length val = unat (valueSize ph)"
    and h: "header_ok ph"
  shows "header_ok (set_value ph p val)"
proof -
  let ?a = "slot_start ph p + 1 + unat (keySize ph)"
  have s: "unat (slotSize ph) = 1 + unat (keySize ph) + unat (valueSize ph)" using g by (rule geometryD)
  have lp: "slot_start ph p + unat (slotSize ph) \<le> length (data ph)" using g p by (rule slot_end_le)
  have fit: "?a + length val \<le> length (data ph)" using lp s v by simp
  have a: "28 \<le> ?a" using slot_start_ge[of ph p] by simp
  have d: "data (set_value ph p val) = overwrite_at (data ph) ?a val" by (simp add: set_value_def)
  from h fit a _ _ _ _ _ d show ?thesis by (rule header_ok_overwrite) simp_all
qed

lemma geometry_cong:
  assumes "geometry ph"
    and f: "keySize ph' = keySize ph" "valueSize ph' = valueSize ph" "slotSize ph' = slotSize ph"
      "numSlots ph' = numSlots ph" "length (data ph') = length (data ph)"
  shows "geometry ph'"
  using assms(1) unfolding geometry_def f .

lemma set_value_geometry:
  assumes "geometry ph" and "p < unat (numSlots ph)" and "length val = unat (valueSize ph)"
  shows "geometry (set_value ph p val)"
  using assms(1) by (rule geometry_cong) (simp_all add: set_value_length[OF assms])

subsection \<open>The handle after an insertion\<close>

lemma set_slot_fields [simp]:
  "keySize (set_slot ph p key val) = keySize ph"
  "valueSize (set_slot ph p key val) = valueSize ph"
  "slotSize (set_slot ph p key val) = slotSize ph"
  "numSlots (set_slot ph p key val) = numSlots ph"
  "usedSlots (set_slot ph p key val) = usedSlots ph + 1"
  "slot_start (set_slot ph p key val) j = slot_start ph j"
  by (simp_all add: set_slot_def slot_start_def)

lemma set_slot_length:
  assumes "geometry ph" and "p < unat (numSlots ph)"
    and "length key = unat (keySize ph)" and "length val = unat (valueSize ph)"
  shows "length (data (set_slot ph p key val)) = length (data ph)"
  using slot_end_le[OF assms(1,2)] geometryD(3)[OF assms(1)] assms(3,4) slot_start_ge[of ph p]
  by (simp add: set_slot_def)

lemma set_slot_geometry:
  assumes "geometry ph" and "p < unat (numSlots ph)"
    and "length key = unat (keySize ph)" and "length val = unat (valueSize ph)"
  shows "geometry (set_slot ph p key val)"
  using assms(1) by (rule geometry_cong) (simp_all add: set_slot_length[OF assms])

lemma set_slot_slots:
  assumes g: "geometry ph" and p: "p < unat (numSlots ph)"
    and k: "length key = unat (keySize ph)" and v: "length val = unat (valueSize ph)"
    and j: "j < unat (numSlots ph)"
  shows "status_at (set_slot ph p key val) j = (if j = p then 1 else status_at ph j)"
    and "key_at (set_slot ph p key val) j = (if j = p then key else key_at ph j)"
    and "value_at (set_slot ph p key val) j = (if j = p then val else value_at ph j)"
proof -
  define a where "a = slot_start ph p"
  define b where "b = slot_start ph j"
  define ys where "ys = 1 # key @ val"
  define xs where "xs = overwrite_at (data ph) a ys"
  have s: "unat (slotSize ph) = 1 + unat (keySize ph) + unat (valueSize ph)" using g by (rule geometryD)
  have ly: "length ys = unat (slotSize ph)" using s k v by (simp add: ys_def)
  have lp: "a + length ys \<le> length (data ph)"
    using slot_end_le[OF g p] ly by (simp add: a_def)
  have lj: "b + unat (slotSize ph) \<le> length (data ph)"
    using slot_end_le[OF g j] by (simp add: b_def)
  have lx: "length xs = length (data ph)" using lp by (simp add: xs_def)
  have a28: "28 \<le> a" "28 \<le> b" by (simp_all add: a_def b_def slot_start_ge)
  have d: "data (set_slot ph p key val) = overwrite_at xs 12 (PutUint32 (usedSlots ph + 1))"
    by (simp add: set_slot_def xs_def a_def ys_def)
  have hd: "12 + length (PutUint32 (usedSlots ph + 1)) \<le> length xs"
    using lx lp a28 by simp
  have dis: "j \<noteq> p \<Longrightarrow> b + unat (slotSize ph) \<le> a \<or> a + unat (slotSize ph) \<le> b"
    unfolding a_def b_def by (rule slot_disjoint)
  have same: "j = p \<Longrightarrow> b = a" by (simp add: a_def b_def)
  have st: "status_at (set_slot ph p key val) j = xs ! b"
    using hd a28 lj lx s by (simp add: status_at_def d nth_overwrite_at b_def)
  have rd: "\<And>o' m. b \<le> o' \<Longrightarrow> o' + m \<le> b + unat (slotSize ph) \<Longrightarrow>
      take m (drop o' (data (set_slot ph p key val))) = take m (drop o' xs)"
    unfolding d using hd a28 lj lx by (intro read_overwrite_at_outside) auto
  have ky: "key_at (set_slot ph p key val) j = take (unat (keySize ph)) (drop (b + 1) xs)"
    unfolding key_at_def set_slot_fields b_def[symmetric] using s by (intro rd) auto
  have vl: "value_at (set_slot ph p key val) j
              = take (unat (valueSize ph)) (drop (b + 1 + unat (keySize ph)) xs)"
    unfolding value_at_def set_slot_fields b_def[symmetric] using s by (intro rd) auto
  show "status_at (set_slot ph p key val) j = (if j = p then 1 else status_at ph j)"
  proof (cases "j = p")
    case True
    then show ?thesis using st same lp ly s lj
      by (simp add: xs_def nth_overwrite_at ys_def)
  next
    case False
    from dis[OF this] show ?thesis using False st lp ly lj s
      by (auto simp: xs_def nth_overwrite_at status_at_def b_def)
  qed
  show "key_at (set_slot ph p key val) j = (if j = p then key else key_at ph j)"
  proof (cases "j = p")
    case True
    have "take (unat (keySize ph)) (drop (a + 1) (overwrite_at (data ph) a ys))
            = take (unat (keySize ph)) (drop (a + 1 - a) ys)"
      using lp ly s by (intro read_overwrite_at_inside) auto
    then show ?thesis using True ky same k by (simp add: xs_def ys_def)
  next
    case False
    have "take (unat (keySize ph)) (drop (b + 1) (overwrite_at (data ph) a ys))
            = take (unat (keySize ph)) (drop (b + 1) (data ph))"
      using dis[OF False] lp ly lj s by (intro read_overwrite_at_outside) auto
    then show ?thesis using False ky by (simp add: xs_def key_at_def b_def)
  qed
  show "value_at (set_slot ph p key val) j = (if j = p then val else value_at ph j)"
  proof (cases "j = p")
    case True
    have "take (unat (valueSize ph)) (drop (a + 1 + unat (keySize ph)) (overwrite_at (data ph) a ys))
            = take (unat (valueSize ph)) (drop (a + 1 + unat (keySize ph) - a) ys)"
      using lp ly s by (intro read_overwrite_at_inside) auto
    then show ?thesis using True vl same k v by (simp add: xs_def ys_def)
  next
    case False
    have "take (unat (valueSize ph)) (drop (b + 1 + unat (keySize ph)) (overwrite_at (data ph) a ys))
            = take (unat (valueSize ph)) (drop (b + 1 + unat (keySize ph)) (data ph))"
      using dis[OF False] lp ly lj s by (intro read_overwrite_at_outside) auto
    then show ?thesis using False vl by (simp add: xs_def value_at_def b_def)
  qed
qed

lemma set_slot_header_ok:
  assumes g: "geometry ph" and p: "p < unat (numSlots ph)"
    and k: "length key = unat (keySize ph)" and v: "length val = unat (valueSize ph)"
    and h: "header_ok ph"
  shows "header_ok (set_slot ph p key val)"
proof -
  define a where "a = slot_start ph p"
  define ys where "ys = 1 # key @ val"
  define xs where "xs = overwrite_at (data ph) a ys"
  define zs where "zs = PutUint32 (usedSlots ph + 1)"
  have s: "unat (slotSize ph) = 1 + unat (keySize ph) + unat (valueSize ph)" using g by (rule geometryD)
  have ly: "length ys = unat (slotSize ph)" using s k v by (simp add: ys_def)
  have lp: "a + length ys \<le> length (data ph)"
    using slot_end_le[OF g p] ly by (simp add: a_def)
  have lx: "length xs = length (data ph)" using lp by (simp add: xs_def)
  have a28: "28 \<le> a" by (simp add: a_def slot_start_ge)
  have lz: "length zs = 4" by (simp add: zs_def)
  have d: "data (set_slot ph p key val) = overwrite_at xs 12 zs"
    by (simp add: set_slot_def xs_def a_def ys_def zs_def)
  have hd: "12 + length zs \<le> length xs" using lx lp a28 lz by simp
  have len: "length (data (set_slot ph p key val)) = length (data ph)"
    unfolding d using hd lx by simp
  have r1: "\<And>o'. o' + 4 \<le> 28 \<Longrightarrow> take 4 (drop o' xs) = take 4 (drop o' (data ph))"
    unfolding xs_def using lp a28 by (rule header_field_outside)
  have r2: "\<And>o'. o' + 4 \<le> 12 \<or> 16 \<le> o' \<Longrightarrow> o' + 4 \<le> 28 \<Longrightarrow>
      take 4 (drop o' (overwrite_at xs 12 zs)) = take 4 (drop o' xs)"
    using hd lz lx lp a28 by (intro read_overwrite_at_outside) auto
  have u: "take 4 (drop 12 (overwrite_at xs 12 zs)) = zs"
  proof -
    have "take 4 (drop 12 (overwrite_at xs 12 zs)) = take 4 (drop (12 - 12) zs)"
      using hd lz by (intro read_overwrite_at_inside) auto
    then show ?thesis using lz by simp
  qed
  have f0: "take 4 (overwrite_at xs 12 zs) = take 4 (data ph)"
    using r2[of 0] r1[of 0] by simp
  have f8: "take 4 (drop 8 (overwrite_at xs 12 zs)) = take 4 (drop 8 (data ph))"
    using r2[of 8] r1[of 8] by simp
  have f16: "take 4 (drop 16 (overwrite_at xs 12 zs)) = take 4 (drop 16 (data ph))"
    using r2[of 16] r1[of 16] by simp
  have f20: "take 4 (drop 20 (overwrite_at xs 12 zs)) = take 4 (drop 20 (data ph))"
    using r2[of 20] r1[of 20] by simp
  have f24: "take 4 (drop 24 (overwrite_at xs 12 zs)) = take 4 (drop 24 (data ph))"
    using r2[of 24] r1[of 24] by simp
  show ?thesis
    using h unfolding header_ok_def len set_slot_fields
    unfolding d f0 f8 f16 f20 f24 u by (simp add: zs_def)
qed

subsection \<open>The writes of the code, as overwrites of byte ranges\<close>

lemma write_slot_eq:
  assumes g: "geometry ph" and p: "p < unat (numSlots ph)" and w: "unat w = slot_start ph p"
    and k: "length key = unat (keySize ph)" and v: "length val = unat (valueSize ph)"
  shows "write_slot (data ph) w (keySize ph) key val
           = Some (overwrite_at (data ph) (slot_start ph p) (1 # key @ val))"
proof -
  define a where "a = slot_start ph p"
  have s: "unat (slotSize ph) = 1 + unat (keySize ph) + unat (valueSize ph)" using g by (rule geometryD)
  have lp: "a + unat (slotSize ph) \<le> length (data ph)"
    using slot_end_le[OF g p] by (simp add: a_def)
  note off = unat_slot_offsets[OF g p w, folded a_def]
  have c1: "copy_at (data ph) (w + 1) key = Some (overwrite_at (data ph) (a + 1) key)"
    using lp s k off(1) by (subst copy_at_overwrite) simp_all
  have l1: "length (overwrite_at (data ph) (a + 1) key) = length (data ph)"
    using lp s k by simp
  have c2: "copy_at (overwrite_at (data ph) (a + 1) key) (w + 1 + keySize ph) val
              = Some (overwrite_at (overwrite_at (data ph) (a + 1) key) (a + 1 + length key) val)"
    using lp s k v off(2) l1 by (subst copy_at_overwrite) simp_all
  have "(overwrite_at (overwrite_at (data ph) (a + 1) key) (a + 1 + length key) val)[a := 1]
          = overwrite_at (data ph) a (1 # key @ val)"
    using lp s k v by (intro overwrite_at_status_key_value) simp
  then show ?thesis
    using c1 c2 w by (simp add: write_slot_def a_def)
qed

lemma insert_slot_write_slot:
  assumes "write_slot (data ph) w (keySize ph) key val = Some d1"
    and "put_used d1 (usedSlots ph + 1) = Some d2"
  shows "insert_slot ph w key val = (None, ph\<lparr>data := d2, usedSlots := usedSlots ph + 1\<rparr>)"
  using assms by (auto simp: insert_slot_def write_slot_def Let_def split: option.splits)

lemma put_free_branch:
  assumes g: "geometry ph" and p: "p < unat (numSlots ph)" and w: "unat w = slot_start ph p"
    and k: "length key = unat (keySize ph)" and v: "length val = unat (valueSize ph)"
  shows "insert_slot ph w key val = (None, set_slot ph p key val)"
proof -
  have s: "unat (slotSize ph) = 1 + unat (keySize ph) + unat (valueSize ph)" using g by (rule geometryD)
  have lp: "slot_start ph p + unat (slotSize ph) \<le> length (data ph)" using g p by (rule slot_end_le)
  have "16 \<le> length (overwrite_at (data ph) (slot_start ph p) (1 # key @ val))"
    using lp s k v slot_start_ge[of ph p] by simp
  then have "put_used (overwrite_at (data ph) (slot_start ph p) (1 # key @ val)) (usedSlots ph + 1)
      = Some (data (set_slot ph p key val))"
    by (simp add: put_used_overwrite set_slot_def)
  with write_slot_eq[OF assms] have "insert_slot ph w key val
      = (None, ph\<lparr>data := data (set_slot ph p key val), usedSlots := usedSlots ph + 1\<rparr>)"
    by (rule insert_slot_write_slot)
  then show ?thesis by (simp add: set_slot_def)
qed

lemma put_hit_branch:
  assumes g: "geometry ph" and p: "p < unat (numSlots ph)" and w: "unat w = slot_start ph p"
    and v: "length val = unat (valueSize ph)"
  shows "(case copy_at (data ph) (w + 1 + keySize ph) val of
            None \<Rightarrow> (Some Panic, ph)
          | Some d \<Rightarrow> (None, ph\<lparr>data := d\<rparr>))
         = (None, set_value ph p val)"
proof -
  have s: "unat (slotSize ph) = 1 + unat (keySize ph) + unat (valueSize ph)" using g by (rule geometryD)
  have lp: "slot_start ph p + unat (slotSize ph) \<le> length (data ph)" using g p by (rule slot_end_le)
  note off = unat_slot_offsets[OF g p w]
  have "copy_at (data ph) (w + 1 + keySize ph) val
          = Some (overwrite_at (data ph) (slot_start ph p + 1 + unat (keySize ph)) val)"
    using lp s v off(2) by (subst copy_at_overwrite) simp_all
  then show ?thesis by (simp add: set_value_def)
qed

section \<open>The invariant is kept\<close>

lemma table_invD:
  assumes "table_inv ph"
  shows "geometry ph" and "header_ok ph" and "count_ok ph" and "keys_unique ph"
    and "probe_paths ph"
  using assms unfolding table_inv_def by blast+

lemma occupied_less: "j \<in> occupied ph \<Longrightarrow> j < unat (numSlots ph)"
  by (simp add: occupied_def)

lemma finite_occupied [simp]: "finite (occupied ph)"
  by (simp add: occupied_def)

lemma card_occupied_le: "card (occupied ph) \<le> unat (numSlots ph)"
proof -
  have "occupied ph \<subseteq> {..<unat (numSlots ph)}" by (auto simp: occupied_def)
  then have "card (occupied ph) \<le> card {..<unat (numSlots ph)}" by (intro card_mono) simp_all
  then show ?thesis by simp
qed

subsection \<open>Overwriting the value of an occupied slot\<close>

lemma set_value_occupied:
  assumes "geometry ph" and "p < unat (numSlots ph)" and "length val = unat (valueSize ph)"
  shows "occupied (set_value ph p val) = occupied ph"
  using set_value_slots(1)[OF assms] by (auto simp: occupied_def)

lemma set_value_pos [simp]: "pos (set_value ph p val) key i = pos ph key i"
  by (simp add: pos_def home_def)

lemma set_value_inv:
  assumes inv: "table_inv ph" and p: "p < unat (numSlots ph)"
    and v: "length val = unat (valueSize ph)"
  shows "table_inv (set_value ph p val)"
proof -
  note g = table_invD(1)[OF inv]
  note sl = set_value_slots[OF g p v]
  note occ = set_value_occupied[OF g p v]
  have "geometry (set_value ph p val)" using g p v by (rule set_value_geometry)
  moreover have "header_ok (set_value ph p val)"
    using g p v table_invD(2)[OF inv] by (rule set_value_header_ok)
  moreover have "count_ok (set_value ph p val)"
    using table_invD(3)[OF inv] by (simp add: count_ok_def occ)
  moreover have "keys_unique (set_value ph p val)"
    using table_invD(4)[OF inv] unfolding keys_unique_def occ
    by (simp add: sl(2) occupied_less)
  moreover have "probe_paths (set_value ph p val)"
    unfolding probe_paths_def occ set_value_fields set_value_pos
  proof
    fix j assume j: "j \<in> occupied ph"
    then have jn: "j < unat (numSlots ph)" by (rule occupied_less)
    from table_invD(5)[OF inv] j obtain d where d: "d < unat (numSlots ph)"
      "pos ph (key_at ph j) d = j" "\<forall>i<d. status_at ph (pos ph (key_at ph j) i) \<noteq> 0"
      unfolding probe_paths_def by blast
    have "\<forall>i<d. status_at (set_value ph p val) (pos ph (key_at ph j) i) \<noteq> 0"
    proof (intro allI impI)
      fix i assume "i < d"
      moreover have "pos ph (key_at ph j) i < unat (numSlots ph)"
        using geometryD(1)[OF g] by (simp add: pos_def)
      ultimately show "status_at (set_value ph p val) (pos ph (key_at ph j) i) \<noteq> 0"
        using d(3) by (simp add: sl(1))
    qed
    with d(1,2) show "\<exists>d<unat (numSlots ph).
        pos ph (key_at (set_value ph p val) j) d = j \<and>
        (\<forall>i<d. status_at (set_value ph p val) (pos ph (key_at (set_value ph p val) j) i) \<noteq> 0)"
      by (auto simp: sl(2)[OF jn])
  qed
  ultimately show ?thesis by (simp add: table_inv_def)
qed

lemma set_value_stored:
  assumes inv: "table_inv ph" and p: "p \<in> occupied ph"
    and v: "length val = unat (valueSize ph)"
  shows "stored (set_value ph p val) k x \<longleftrightarrow>
           (if k = key_at ph p then x = val else stored ph k x)"
proof -
  note g = table_invD(1)[OF inv]
  have pn: "p < unat (numSlots ph)" using p by (rule occupied_less)
  note sl = set_value_slots[OF g pn v]
  note occ = set_value_occupied[OF g pn v]
  have u: "\<And>j. j \<in> occupied ph \<Longrightarrow> key_at ph j = key_at ph p \<Longrightarrow> j = p"
    using table_invD(4)[OF inv] p unfolding keys_unique_def by blast
  show ?thesis
  proof (cases "k = key_at ph p")
    case True
    have "stored (set_value ph p val) k x \<longleftrightarrow> x = val"
    proof
      assume "stored (set_value ph p val) k x"
      then obtain j where j: "j \<in> occupied ph" "key_at (set_value ph p val) j = k"
        "value_at (set_value ph p val) j = x" unfolding stored_def occ by blast
      have jn: "j < unat (numSlots ph)" using j(1) by (rule occupied_less)
      from j(2) True have "key_at ph j = key_at ph p" by (simp add: sl(2)[OF jn])
      with u j(1) have "j = p" by blast
      with j(3) sl(3)[OF pn] show "x = val" by simp
    next
      assume "x = val"
      moreover have "key_at (set_value ph p val) p = k" using True by (simp add: sl(2)[OF pn])
      moreover have "value_at (set_value ph p val) p = val" by (simp add: sl(3)[OF pn])
      ultimately show "stored (set_value ph p val) k x"
        unfolding stored_def occ using p by blast
    qed
    with True show ?thesis by simp
  next
    case False
    have "stored (set_value ph p val) k x \<longleftrightarrow> stored ph k x"
      unfolding stored_def occ
    proof (intro bex_cong refl)
      fix j assume j: "j \<in> occupied ph"
      then have jn: "j < unat (numSlots ph)" by (rule occupied_less)
      show "(key_at (set_value ph p val) j = k \<and> value_at (set_value ph p val) j = x)
            = (key_at ph j = k \<and> value_at ph j = x)"
        using False by (auto simp: sl(2,3)[OF jn])
    qed
    with False show ?thesis by simp
  qed
qed

subsection \<open>Filling a free slot\<close>

lemma set_slot_occupied:
  assumes "geometry ph" and "p < unat (numSlots ph)"
    and "length key = unat (keySize ph)" and "length val = unat (valueSize ph)"
  shows "occupied (set_slot ph p key val) = insert p (occupied ph)"
  using set_slot_slots(1)[OF assms] assms(2) by (auto simp: occupied_def)

lemma set_slot_pos [simp]: "pos (set_slot ph p key val) k i = pos ph k i"
  by (simp add: pos_def home_def)

lemma pos_less: "geometry ph \<Longrightarrow> pos ph key i < unat (numSlots ph)"
  using geometryD(1)[of ph] by (simp add: pos_def)

lemma set_slot_inv:
  assumes inv: "table_inv ph" and p: "p < unat (numSlots ph)"
    and k: "length key = unat (keySize ph)" and v: "length val = unat (valueSize ph)"
    and free: "status_at ph p = 0"
    and new: "\<forall>j \<in> occupied ph. key_at ph j \<noteq> key"
    and path: "\<exists>d < unat (numSlots ph). pos ph key d = p \<and>
                 (\<forall>i < d. status_at ph (pos ph key i) \<noteq> 0)"
  shows "table_inv (set_slot ph p key val)"
proof -
  let ?ph' = "set_slot ph p key val"
  note g = table_invD(1)[OF inv]
  note sl = set_slot_slots[OF g p k v]
  note occ = set_slot_occupied[OF g p k v]
  have pfree: "p \<notin> occupied ph" using free by (simp add: occupied_def)
  have nz: "\<And>j. j < unat (numSlots ph) \<Longrightarrow> status_at ph j \<noteq> 0 \<Longrightarrow> status_at ?ph' j \<noteq> 0"
    by (simp add: sl(1))
  have kp: "key_at ?ph' p = key" by (simp add: sl(2)[OF p])
  have ko: "\<And>j. j < unat (numSlots ph) \<Longrightarrow> j \<noteq> p \<Longrightarrow> key_at ?ph' j = key_at ph j"
    by (simp add: sl(2))
  have "geometry ?ph'" using g p k v by (rule set_slot_geometry)
  moreover have "header_ok ?ph'"
    using g p k v table_invD(2)[OF inv] by (rule set_slot_header_ok)
  moreover have "count_ok ?ph'"
  proof -
    have c: "unat (usedSlots ph) = card (occupied ph)"
      using table_invD(3)[OF inv] by (simp add: count_ok_def)
    have "card (occupied ph) < 2 ^ 31"
      using card_occupied_le[of ph] geometryD(2)[OF g] by simp
    then have "unat (usedSlots ph) + unat (1 :: u32) < 2 ^ 32" using c by simp
    then have "unat (usedSlots ph + 1) = unat (usedSlots ph) + 1"
      by (simp add: unat_add32)
    then show ?thesis using c pfree by (simp add: count_ok_def occ)
  qed
  moreover have "keys_unique ?ph'"
    unfolding keys_unique_def occ
  proof (intro ballI impI)
    fix i j assume i: "i \<in> insert p (occupied ph)" and j: "j \<in> insert p (occupied ph)"
      and e: "key_at ?ph' i = key_at ?ph' j"
    have in': "i < unat (numSlots ph)" "j < unat (numSlots ph)"
      using i j p by (auto dest: occupied_less)
    show "i = j"
    proof (cases "i = p")
      case ip: True
      show ?thesis
      proof (cases "j = p")
        case True with ip show ?thesis by simp
      next
        case False
        with j have "j \<in> occupied ph" by simp
        with new have "key_at ph j \<noteq> key" by blast
        with e ip False kp ko[OF in'(2)] show ?thesis by simp
      qed
    next
      case ip: False
      with i have io: "i \<in> occupied ph" by simp
      show ?thesis
      proof (cases "j = p")
        case True
        from io new have "key_at ph i \<noteq> key" by blast
        with e ip True kp ko[OF in'(1)] show ?thesis by simp
      next
        case False
        with j have jo: "j \<in> occupied ph" by simp
        from e ip False ko[OF in'(1)] ko[OF in'(2)] have "key_at ph i = key_at ph j"
          by simp
        with table_invD(4)[OF inv] io jo show ?thesis unfolding keys_unique_def by blast
      qed
    qed
  qed
  moreover have "probe_paths ?ph'"
    unfolding probe_paths_def occ set_slot_fields set_slot_pos
  proof
    fix j assume j: "j \<in> insert p (occupied ph)"
    then have jn: "j < unat (numSlots ph)" using p by (auto dest: occupied_less)
    have "\<exists>d<unat (numSlots ph). pos ph (key_at ?ph' j) d = j \<and>
             (\<forall>i<d. status_at ph (pos ph (key_at ?ph' j) i) \<noteq> 0)"
    proof (cases "j = p")
      case True
      with path kp show ?thesis by simp
    next
      case False
      with j have "j \<in> occupied ph" by simp
      with table_invD(5)[OF inv] ko[OF jn False] show ?thesis
        unfolding probe_paths_def by simp
    qed
    then obtain d where d: "d < unat (numSlots ph)" "pos ph (key_at ?ph' j) d = j"
      "\<forall>i<d. status_at ph (pos ph (key_at ?ph' j) i) \<noteq> 0" by blast
    have "\<forall>i<d. status_at ?ph' (pos ph (key_at ?ph' j) i) \<noteq> 0"
      using d(3) nz pos_less[OF g] by blast
    with d(1,2) show "\<exists>d<unat (numSlots ph). pos ph (key_at ?ph' j) d = j \<and>
             (\<forall>i<d. status_at ?ph' (pos ph (key_at ?ph' j) i) \<noteq> 0)" by blast
  qed
  ultimately show ?thesis by (simp add: table_inv_def)
qed

lemma set_slot_stored:
  assumes inv: "table_inv ph" and p: "p < unat (numSlots ph)"
    and k: "length key = unat (keySize ph)" and v: "length val = unat (valueSize ph)"
    and free: "status_at ph p = 0"
    and new: "\<forall>j \<in> occupied ph. key_at ph j \<noteq> key"
  shows "stored (set_slot ph p key val) k' x \<longleftrightarrow> (if k' = key then x = val else stored ph k' x)"
proof -
  let ?ph' = "set_slot ph p key val"
  note g = table_invD(1)[OF inv]
  note sl = set_slot_slots[OF g p k v]
  note occ = set_slot_occupied[OF g p k v]
  have pfree: "p \<notin> occupied ph" using free by (simp add: occupied_def)
  have old: "\<And>j. j \<in> occupied ph \<Longrightarrow> key_at ?ph' j = key_at ph j \<and> value_at ?ph' j = value_at ph j"
  proof -
    fix j assume j: "j \<in> occupied ph"
    then have "j \<noteq> p" using pfree by blast
    with sl(2,3)[OF occupied_less[OF j]]
    show "key_at ?ph' j = key_at ph j \<and> value_at ?ph' j = value_at ph j" by simp
  qed
  have here: "key_at ?ph' p = key" "value_at ?ph' p = val" by (simp_all add: sl(2,3)[OF p])
  show ?thesis
  proof (cases "k' = key")
    case True
    have "stored ?ph' k' x \<longleftrightarrow> x = val"
    proof
      assume "stored ?ph' k' x"
      then obtain j where j: "j \<in> insert p (occupied ph)" "key_at ?ph' j = k'" "value_at ?ph' j = x"
        unfolding stored_def occ by blast
      have "j = p"
      proof (rule ccontr)
        assume "j \<noteq> p"
        with j(1) have jo: "j \<in> occupied ph" by simp
        with old j(2) True have "key_at ph j = key" by simp
        with new jo show False by blast
      qed
      with j(3) here show "x = val" by simp
    next
      assume "x = val"
      with here True show "stored ?ph' k' x" unfolding stored_def occ by blast
    qed
    with True show ?thesis by simp
  next
    case False
    have "stored ?ph' k' x \<longleftrightarrow> stored ph k' x"
    proof
      assume "stored ?ph' k' x"
      then obtain j where j: "j \<in> insert p (occupied ph)" "key_at ?ph' j = k'" "value_at ?ph' j = x"
        unfolding stored_def occ by blast
      from j(2) here False have "j \<noteq> p" by auto
      with j(1) have jo: "j \<in> occupied ph" by simp
      with old j(2,3) show "stored ph k' x" unfolding stored_def by auto
    next
      assume "stored ph k' x"
      then obtain j where j: "j \<in> occupied ph" "key_at ph j = k'" "value_at ph j = x"
        unfolding stored_def by blast
      with old show "stored ?ph' k' x" unfolding stored_def occ by auto
    qed
    with False show ?thesis by simp
  qed
qed

subsection \<open>Where the probe of a well-formed table stops\<close>

lemma probe_Free_new:
  assumes inv: "table_inv ph" and pr: "probe ph key (hashKey key mod numSlots ph) 0 = Free w"
  shows "\<exists>p < unat (numSlots ph). unat w = slot_start ph p \<and> status_at ph p = 0 \<and>
           (\<forall>j \<in> occupied ph. key_at ph j \<noteq> key) \<and>
           (\<exists>d < unat (numSlots ph). pos ph key d = p \<and>
              (\<forall>i < d. status_at ph (pos ph key i) \<noteq> 0))"
proof -
  let ?n = "unat (numSlots ph)"
  let ?idx = "hashKey key mod numSlots ph"
  note g = table_invD(1)[OF inv]
  have h: "unat ?idx < ?n" using home_less[OF g, of key] by (simp add: home_def)
  from probe_cases(3)[OF g h pr] obtain d where d: "stops_at ph key (unat ?idx) 0 w d"
    and e: "status_at ph ((unat ?idx + d) mod ?n) = 0" by blast
  let ?p = "pos ph key d"
  have pd: "?p = (unat ?idx + d) mod ?n" by (simp add: pos_def home_def)
  have dn: "d < ?n" and w: "unat w = slot_start ph ?p"
    and pa: "passes ph key (unat ?idx) 0 d"
    using d by (simp_all add: stops_at_def pd)
  have path: "\<forall>i < d. status_at ph (pos ph key i) \<noteq> 0"
    using pa by (simp add: passes_def pos_def home_def)
  have new: "\<forall>j \<in> occupied ph. key_at ph j \<noteq> key"
  proof
    fix j assume j: "j \<in> occupied ph"
    show "key_at ph j \<noteq> key"
    proof
      assume "key_at ph j = key"
      with probe_finds_stored[OF g table_invD(4)[OF inv] table_invD(5)[OF inv] j] pr
      show False by auto
    qed
  qed
  have pn: "?p < ?n" using g by (rule pos_less)
  have e': "status_at ph ?p = 0" using e pd by simp
  have ex: "\<exists>d' < ?n. pos ph key d' = ?p \<and> (\<forall>i < d'. status_at ph (pos ph key i) \<noteq> 0)"
    using dn path by blast
  from pn w e' new ex show ?thesis by blast
qed

lemma probe_Hit_occupied:
  assumes g: "geometry ph" and pr: "probe ph key (hashKey key mod numSlots ph) 0 = Hit w"
  shows "\<exists>p \<in> occupied ph. unat w = slot_start ph p \<and> key_at ph p = key"
proof -
  let ?n = "unat (numSlots ph)"
  let ?idx = "hashKey key mod numSlots ph"
  have h: "unat ?idx < ?n" using home_less[OF g, of key] by (simp add: home_def)
  from probe_cases(4)[OF g h pr] obtain d where d: "stops_at ph key (unat ?idx) 0 w d"
    and o: "status_at ph ((unat ?idx + d) mod ?n) = 1"
    and k: "key_at ph ((unat ?idx + d) mod ?n) = key" by blast
  have "(unat ?idx + d) mod ?n < ?n" using geometryD(1)[OF g] by simp
  with o have "(unat ?idx + d) mod ?n \<in> occupied ph" by (simp add: occupied_def)
  moreover have "unat w = slot_start ph ((unat ?idx + d) mod ?n)" using d by (simp add: stops_at_def)
  ultimately show ?thesis using k by blast
qed

subsection \<open>The scan for a free slot during a resize\<close>

lemma probe_free_step:
  assumes g: "geometry ph" and idx: "unat idx < unat (numSlots ph)" and i: "i < unat (numSlots ph)"
  defines "p \<equiv> (unat idx + i) mod unat (numSlots ph)"
  defines "w \<equiv> headerSize + (idx + of_nat i) mod numSlots ph * slotSize ph"
  shows "probe_free (data ph) (numSlots ph) (slotSize ph) idx i =
           (if status_at ph p = 0 then Free w
            else probe_free (data ph) (numSlots ph) (slotSize ph) idx (i + 1))"
proof -
  have p: "p < unat (numSlots ph)" using i by (simp add: p_def)
  have w: "unat w = slot_start ph p"
    using probe_step(1)[OF g idx i] by (simp add: w_def p_def)
  have inb: "unat w < length (data ph)" using slot_start_less[OF g p] w by simp
  have st: "data ph ! unat w = status_at ph p" by (simp add: status_at_def w)
  show ?thesis
    using i inb st by (subst probe_free.simps) (auto simp: Let_def w_def)
qed

lemma probe_free_eq_probe:
  assumes g: "geometry ph" and idx: "unat idx < unat (numSlots ph)"
    and new: "\<forall>j \<in> occupied ph. key_at ph j \<noteq> key"
  shows "probe_free (data ph) (numSlots ph) (slotSize ph) idx i = probe ph key idx i"
proof (induction "unat (numSlots ph) - i" arbitrary: i)
  case 0
  then have "\<not> i < unat (numSlots ph)" by simp
  then show ?case by (subst probe_free.simps, subst probe.simps) simp
next
  case (Suc m)
  then have i: "i < unat (numSlots ph)" by simp
  let ?p = "(unat idx + i) mod unat (numSlots ph)"
  have pn: "?p < unat (numSlots ph)" using i by simp
  have nk: "\<not> (status_at ph ?p = 1 \<and> key_at ph ?p = key)"
    using new pn by (auto simp: occupied_def)
  have "m = unat (numSlots ph) - (i + 1)" using Suc(2) by simp
  from Suc(1)[OF this] show ?case
    using nk by (auto simp: probe_free_step[OF g idx i] probe_step(2)[OF g idx i, of key])
qed

subsection \<open>One entry moved by a resize\<close>

lemma rehash_probe_insert:
  assumes inv: "table_inv T" and new: "\<forall>j \<in> occupied T. key_at T j \<noteq> key"
    and k: "length key = unat (keySize T)" and v: "length val = unat (valueSize T)"
    and r: "rehash_probe (data T) (numSlots T) (slotSize T) (keySize T) key val
              (hashKey key mod numSlots T) 0 = Inr t'"
  shows "\<exists>p < unat (numSlots T). status_at T p = 0 \<and> t' = data (set_slot T p key val) \<and>
           (\<exists>d < unat (numSlots T). pos T key d = p \<and>
              (\<forall>i < d. status_at T (pos T key i) \<noteq> 0))"
proof -
  let ?idx = "hashKey key mod numSlots T"
  note g = table_invD(1)[OF inv]
  have h: "unat ?idx < unat (numSlots T)" using home_less[OF g, of key] by (simp add: home_def)
  have pf: "probe_free (data T) (numSlots T) (slotSize T) ?idx 0 = probe T key ?idx 0"
    using g h new by (rule probe_free_eq_probe)
  from r obtain w where w: "probe T key ?idx 0 = Free w"
    and wr: "(case write_slot (data T) w (keySize T) key val of
                None \<Rightarrow> Inl Panic
              | Some t1 \<Rightarrow> (case bump_used t1 of None \<Rightarrow> Inl Panic | Some t2 \<Rightarrow> Inr t2)) = Inr t'"
    unfolding rehash_probe_probe_free pf
    by (cases "probe T key ?idx 0") simp_all
  from probe_Free_new[OF inv w] obtain p where p: "p < unat (numSlots T)"
    and pw: "unat w = slot_start T p" and free: "status_at T p = 0"
    and path: "\<exists>d < unat (numSlots T). pos T key d = p \<and>
              (\<forall>i < d. status_at T (pos T key i) \<noteq> 0)" by blast
  define a where "a = slot_start T p"
  define ys where "ys = 1 # key @ val"
  define t1 where "t1 = overwrite_at (data T) a ys"
  have s: "unat (slotSize T) = 1 + unat (keySize T) + unat (valueSize T)" using g by (rule geometryD)
  have ly: "length ys = unat (slotSize T)" using s k v by (simp add: ys_def)
  have lp: "a + length ys \<le> length (data T)"
    using slot_end_le[OF g p] ly by (simp add: a_def)
  have a28: "28 \<le> a" by (simp add: a_def slot_start_ge)
  have l1: "length t1 = length (data T)" using lp by (simp add: t1_def)
  have ws: "write_slot (data T) w (keySize T) key val = Some t1"
    using write_slot_eq[OF g p pw k v] by (simp add: t1_def a_def ys_def)
  have "take 4 (drop 12 t1) = take 4 (drop 12 (data T))"
    unfolding t1_def using lp a28 by (intro header_field_outside) auto
  then have u: "Uint32 (take 4 (drop 12 t1)) = usedSlots T"
    using table_invD(2)[OF inv] by (simp add: header_ok_def)
  have l16: "16 \<le> length t1" using l1 lp a28 by simp
  have "bump_used t1 = Some (overwrite_at t1 12 (PutUint32 (usedSlots T + 1)))"
    using l16 u by (simp add: bump_used_def slice_numeral put_used_overwrite)
  with wr ws have "t' = overwrite_at t1 12 (PutUint32 (usedSlots T + 1))" by simp
  then have "t' = data (set_slot T p key val)"
    by (simp add: set_slot_def t1_def a_def ys_def)
  with p free path show ?thesis by blast
qed

lemma nth_newFile_slot:
  assumes "28 \<le> i" and "i < length (newFile n s k v)"
  shows "newFile n s k v ! i = 0"
  using assms by (simp add: newFile_def Let_def nth_append)

lemma newFile_table_inv:
  assumes n: "0 < unat n" "unat n < 2 ^ 31" and s: "unat s = 1 + unat ks + unat vs"
    and fit: "28 + unat n * unat s < 2 ^ 32"
  defines "T \<equiv> \<lparr>data = newFile n s ks vs, keySize = ks, valueSize = vs, slotSize = s,
                 numSlots = n, usedSlots = 0\<rparr>"
  shows "table_inv T" and "occupied T = {}"
proof -
  have "unat n * unat s < 2 ^ 32" using fit by simp
  then have m: "unat (n * s) = unat n * unat s" by (rule unat_mult32)
  have "unat headerSize + unat (n * s) < 2 ^ 32" using fit m by (simp add: headerSize_def)
  then have "unat (headerSize + n * s) = 28 + unat n * unat s"
    using m by (simp add: unat_add32 headerSize_def)
  then have len: "length (newFile n s ks vs) = 28 + unat n * unat s"
    by (simp add: length_newFile)
  have g: "geometry T"
    using n s fit len by (simp add: geometry_def T_def)
  have st: "\<And>j. j < unat n \<Longrightarrow> status_at T j = 0"
  proof -
    fix j assume "j < unat n"
    then have "slot_start T j < length (data T)"
      using slot_start_less[OF g, of j] by (simp add: T_def)
    then show "status_at T j = 0"
      using slot_start_ge[of T j] by (simp add: status_at_def T_def nth_newFile_slot)
  qed
  then show occ: "occupied T = {}" by (auto simp: occupied_def T_def)
  have "header_ok T"
    using len by (simp add: header_ok_def T_def newFile_header)
  moreover have "count_ok T" by (simp add: count_ok_def occ) (simp add: T_def)
  moreover have "keys_unique T" by (simp add: keys_unique_def occ)
  moreover have "probe_paths T" by (simp add: probe_paths_def occ)
  ultimately show "table_inv T" using g by (simp add: table_inv_def)
qed

subsection \<open>The rehash loop\<close>

lemma unat_lt32: "unat (w :: u32) < 2 ^ 32"
  using unsigned_less[of w, where 'a = nat] by simp

lemma rehash_stop:
  "\<not> (i < unat (numSlots ph) \<and> c < usedSlots ph) \<Longrightarrow> rehash ph newN tmp i c = Inr tmp"
  by (subst rehash.simps) auto

lemma rehash_step:
  assumes g: "geometry ph" and i: "i < unat (numSlots ph)" and c: "c < usedSlots ph"
    and n: "newN \<noteq> 0"
  shows "rehash ph newN tmp i c =
           (if status_at ph i = 1 then
              (case rehash_probe tmp newN (slotSize ph) (keySize ph) (key_at ph i) (value_at ph i)
                      (hashKey (key_at ph i) mod newN) 0 of
                 Inl e \<Rightarrow> Inl e
               | Inr t \<Rightarrow> rehash ph newN t (i + 1) (c + 1))
            else rehash ph newN tmp (i + 1) c)"
proof -
  define w where "w = headerSize + of_nat i * slotSize ph"
  have "i < 2 ^ 32" using i geometryD(2)[OF g] by simp
  then have ui: "unat (of_nat i :: u32) = i" by (rule unat_of_nat32)
  with i have "unat (of_nat i :: u32) < unat (numSlots ph)" by simp
  from unat_slot_word[OF g this] ui have w: "unat w = slot_start ph i" by (simp add: w_def)
  have inb: "unat w < length (data ph)" using slot_start_less[OF g i] w by simp
  have st: "data ph ! unat w = status_at ph i" by (simp add: status_at_def w)
  have le: "slot_start ph i + unat (slotSize ph) \<le> length (data ph)" using g i by (rule slot_end_le)
  have s: "unat (slotSize ph) = 1 + unat (keySize ph) + unat (valueSize ph)" using g by (rule geometryD)
  note off = unat_slot_offsets[OF g i w]
  have k: "slice (data ph) (w + 1) (w + 1 + keySize ph) = Some (key_at ph i)"
    using off le s by (simp add: slice_def key_at_def)
  have v: "slice (data ph) (w + 1 + keySize ph) (w + slotSize ph) = Some (value_at ph i)"
    using off le s by (simp add: slice_def value_at_def)
  show ?thesis
    using i c n inb st k v
    by (subst rehash.simps) (simp add: Let_def w_def[symmetric])
qed

lemma tmp_table_fields [simp]:
  "keySize (tmp_table ph t) = keySize ph"
  "valueSize (tmp_table ph t) = valueSize ph"
  "slotSize (tmp_table ph t) = slotSize ph"
  "numSlots (tmp_table ph t) = numSlots ph * 2"
  "data (tmp_table ph t) = t"
  by (simp_all add: tmp_table_def)

lemma rehash_correct:
  assumes inv: "table_inv ph"
  shows "table_inv (tmp_table ph tmp) \<Longrightarrow>
         (\<forall>k x. stored (tmp_table ph tmp) k x \<longleftrightarrow>
                  (\<exists>j \<in> occupied ph. j < i \<and> key_at ph j = k \<and> value_at ph j = x)) \<Longrightarrow>
         unat c = card {j \<in> occupied ph. j < i} \<Longrightarrow>
         rehash ph (numSlots ph * 2) tmp i c = Inr tmp' \<Longrightarrow>
         table_inv (tmp_table ph tmp') \<and> (\<forall>k x. stored (tmp_table ph tmp') k x \<longleftrightarrow> stored ph k x)"
proof (induction "unat (numSlots ph) - i" arbitrary: i c tmp)
  case 0
  then have "\<not> (i < unat (numSlots ph) \<and> c < usedSlots ph)" by simp
  with 0(5) have t: "tmp' = tmp" by (simp add: rehash_stop)
  have "\<And>j. j \<in> occupied ph \<Longrightarrow> j < i" using 0(1) by (auto dest: occupied_less)
  then have "\<And>k x. (\<exists>j \<in> occupied ph. j < i \<and> key_at ph j = k \<and> value_at ph j = x)
      \<longleftrightarrow> stored ph k x" unfolding stored_def by blast
  with 0(2,3) t show ?case by simp
next
  case (Suc m)
  note g = table_invD(1)[OF inv]
  let ?T = "tmp_table ph tmp"
  let ?n = "unat (numSlots ph)"
  have i: "i < ?n" using Suc(2) by simp
  show ?case
  proof (cases "c < usedSlots ph")
    case False
    with Suc(6) have t: "tmp' = tmp" by (simp add: rehash_stop)
    have "unat (usedSlots ph) \<le> unat c" using False by (simp add: word_less_nat_alt)
    then have "card (occupied ph) \<le> card {j \<in> occupied ph. j < i}"
      using table_invD(3)[OF inv] Suc(5) by (simp add: count_ok_def)
    moreover have "{j \<in> occupied ph. j < i} \<subseteq> occupied ph" by blast
    ultimately have "{j \<in> occupied ph. j < i} = occupied ph"
      by (intro card_seteq) simp_all
    then have "\<And>j. j \<in> occupied ph \<Longrightarrow> j < i" by blast
    then have "\<And>k x. (\<exists>j \<in> occupied ph. j < i \<and> key_at ph j = k \<and> value_at ph j = x)
        \<longleftrightarrow> stored ph k x" unfolding stored_def by blast
    with Suc(3,4) t show ?thesis by simp
  next
    case c: True
    have m: "m = ?n - (i + 1)" using Suc(2) by simp
    have nz: "numSlots ph * 2 \<noteq> 0"
      using numSlots_nonzero[OF table_invD(1)[OF Suc(3)]] by simp
    note step = rehash_step[OF g i c nz, of tmp]
    show ?thesis
    proof (cases "status_at ph i = 1")
      case False
      then have "i \<notin> occupied ph" by (simp add: occupied_def)
      then have e: "{j \<in> occupied ph. j < i + 1} = {j \<in> occupied ph. j < i}"
        by (auto simp: less_Suc_eq)
      have tr: "\<forall>k x. stored ?T k x \<longleftrightarrow>
                  (\<exists>j \<in> occupied ph. j < i + 1 \<and> key_at ph j = k \<and> value_at ph j = x)"
        using Suc(4) e by blast
      have "rehash ph (numSlots ph * 2) tmp (i + 1) c = Inr tmp'"
        using Suc(6) False by (simp add: step)
      with Suc(1)[OF m Suc(3) tr] Suc(5) e show ?thesis by simp
    next
      case occ: True
      then have io: "i \<in> occupied ph" using i by (simp add: occupied_def)
      let ?key = "key_at ph i" and ?val = "value_at ph i"
      from Suc(6) occ obtain t1 where
        rp: "rehash_probe tmp (numSlots ph * 2) (slotSize ph) (keySize ph) ?key ?val
               (hashKey ?key mod (numSlots ph * 2)) 0 = Inr t1"
        and rest: "rehash ph (numSlots ph * 2) t1 (i + 1) (c + 1) = Inr tmp'"
        by (auto simp: step split: sum.splits)
      have kl: "length ?key = unat (keySize ?T)" using length_key_at[OF g i] by simp
      have vl: "length ?val = unat (valueSize ?T)" using length_value_at[OF g i] by simp
      have new: "\<forall>j \<in> occupied ?T. key_at ?T j \<noteq> ?key"
      proof
        fix j assume j: "j \<in> occupied ?T"
        show "key_at ?T j \<noteq> ?key"
        proof
          assume "key_at ?T j = ?key"
          with j have "stored ?T ?key (value_at ?T j)" unfolding stored_def by blast
          with Suc(4) obtain j' where j': "j' \<in> occupied ph" "j' < i" "key_at ph j' = ?key"
            by blast
          with table_invD(4)[OF inv] io have "j' = i" unfolding keys_unique_def by blast
          with j'(2) show False by simp
        qed
      qed
      from rehash_probe_insert[OF Suc(3) new kl vl] rp
      obtain p where p: "p < unat (numSlots ?T)" and free: "status_at ?T p = 0"
        and t1: "t1 = data (set_slot ?T p ?key ?val)"
        and path: "\<exists>d < unat (numSlots ?T). pos ?T ?key d = p \<and>
              (\<forall>i < d. status_at ?T (pos ?T ?key i) \<noteq> 0)"
        by auto
      let ?T1 = "set_slot ?T p ?key ?val"
      have inv1: "table_inv ?T1" using Suc(3) p kl vl free new path by (rule set_slot_inv)
      have "Uint32 (take 4 (drop 12 t1)) = usedSlots ?T1"
        using table_invD(2)[OF inv1] t1 by (simp add: header_ok_def)
      then have T1: "tmp_table ph t1 = ?T1"
        using t1 by (simp add: tmp_table_def set_slot_def)
      have st1: "\<And>k x. stored ?T1 k x \<longleftrightarrow> (if k = ?key then x = ?val else stored ?T k x)"
        using Suc(3) p kl vl free new by (rule set_slot_stored)
      have tr: "\<forall>k x. stored (tmp_table ph t1) k x \<longleftrightarrow>
                  (\<exists>j \<in> occupied ph. j < i + 1 \<and> key_at ph j = k \<and> value_at ph j = x)"
        unfolding T1 st1
      proof (intro allI)
        fix k x
        show "(if k = ?key then x = ?val else stored ?T k x) \<longleftrightarrow>
              (\<exists>j \<in> occupied ph. j < i + 1 \<and> key_at ph j = k \<and> value_at ph j = x)"
        proof (cases "k = ?key")
          case True
          have "(\<exists>j \<in> occupied ph. j < i + 1 \<and> key_at ph j = k \<and> value_at ph j = x) \<longleftrightarrow> x = ?val"
          proof
            assume "\<exists>j \<in> occupied ph. j < i + 1 \<and> key_at ph j = k \<and> value_at ph j = x"
            then obtain j where j: "j \<in> occupied ph" "key_at ph j = k" "value_at ph j = x" by blast
            with True table_invD(4)[OF inv] io have "j = i" unfolding keys_unique_def by blast
            with j(3) show "x = ?val" by simp
          next
            assume "x = ?val"
            with True io show "\<exists>j \<in> occupied ph. j < i + 1 \<and> key_at ph j = k \<and> value_at ph j = x"
              by auto
          qed
          with True show ?thesis by simp
        next
          case False
          have "(\<exists>j \<in> occupied ph. j < i + 1 \<and> key_at ph j = k \<and> value_at ph j = x) \<longleftrightarrow>
                (\<exists>j \<in> occupied ph. j < i \<and> key_at ph j = k \<and> value_at ph j = x)"
            using False by (auto simp: less_Suc_eq)
          with False Suc(4) show ?thesis by simp
        qed
      qed
      have "unat c + unat (1 :: u32) < 2 ^ 32"
        using c unat_lt32[of "usedSlots ph"] by (simp add: word_less_nat_alt)
      then have "unat (c + 1) = unat c + 1" by (simp add: unat_add32)
      moreover have "{j \<in> occupied ph. j < i + 1} = insert i {j \<in> occupied ph. j < i}"
        using io by (auto simp: less_Suc_eq)
      moreover have "finite {j \<in> occupied ph. j < i}" by simp
      ultimately have cnt: "unat (c + 1) = card {j \<in> occupied ph. j < i + 1}"
        using Suc(5) by simp
      from Suc(1)[OF m _ tr cnt rest] inv1 T1 show ?thesis by simp
    qed
  qed
qed

subsection \<open>resize\<close>

lemma fits_mono: "fits ph m \<Longrightarrow> m' \<le> m \<Longrightarrow> fits ph m'"
proof -
  assume f: "fits ph m" and le: "m' \<le> m"
  have "m' * unat (numSlots ph) \<le> m * unat (numSlots ph)" using le by (rule mult_le_mono1)
  moreover from this have "m' * unat (numSlots ph) * unat (slotSize ph)
      \<le> m * unat (numSlots ph) * unat (slotSize ph)" by (rule mult_le_mono1)
  ultimately show ?thesis using f unfolding fits_def by linarith
qed

lemma resize_tmp_table:
  assumes "resize ph = Inr ph'"
  shows "\<exists>tmp'. rehash ph (numSlots ph * 2)
                  (newFile (numSlots ph * 2) (slotSize ph) (keySize ph) (valueSize ph)) 0 0
                = Inr tmp' \<and> ph' = tmp_table ph tmp'"
  using assms
  by (auto simp: resize_def Let_def tmp_table_def slice_numeral
           split: sum.splits option.splits if_splits)

lemma resize_inv:
  assumes inv: "table_inv ph" and fit: "fits ph 2" and r: "resize ph = Inr ph'"
  shows "table_inv ph'" and "\<And>k x. stored ph' k x \<longleftrightarrow> stored ph k x"
    and "numSlots ph' = numSlots ph * 2" and "unat (numSlots ph') = 2 * unat (numSlots ph)"
    and "keySize ph' = keySize ph" and "valueSize ph' = valueSize ph"
    and "slotSize ph' = slotSize ph"
proof -
  note g = table_invD(1)[OF inv]
  let ?n2 = "numSlots ph * 2"
  let ?f = "newFile ?n2 (slotSize ph) (keySize ph) (valueSize ph)"
  from resize_tmp_table[OF r] obtain tmp' where
    rh: "rehash ph ?n2 ?f 0 0 = Inr tmp'" and ph': "ph' = tmp_table ph tmp'" by blast
  have "unat (numSlots ph) * unat (2 :: u32) < 2 ^ 32" using fit by (simp add: fits_def)
  then have n2: "unat ?n2 = 2 * unat (numSlots ph)" by (simp add: unat_mult32)
  have a: "0 < unat ?n2" "unat ?n2 < 2 ^ 31"
    using n2 geometryD(1)[OF g] fit by (simp_all add: fits_def)
  have b: "28 + unat ?n2 * unat (slotSize ph) < 2 ^ 32" using n2 fit by (simp add: fits_def)
  let ?T0 = "\<lparr>data = ?f, keySize = keySize ph, valueSize = valueSize ph,
               slotSize = slotSize ph, numSlots = ?n2, usedSlots = 0\<rparr>"
  note nf = newFile_table_inv[OF a geometryD(3)[OF g] b]
  have T0: "tmp_table ph ?f = ?T0"
    by (cases ph) (simp add: tmp_table_def newFile_header)
  have tr: "\<forall>k x. stored (tmp_table ph ?f) k x \<longleftrightarrow>
              (\<exists>j \<in> occupied ph. j < 0 \<and> key_at ph j = k \<and> value_at ph j = x)"
    unfolding T0 stored_def nf(2) by simp
  have cnt: "unat (0 :: u32) = card {j \<in> occupied ph. j < 0}" by simp
  have i0: "table_inv (tmp_table ph ?f)" unfolding T0 by (rule nf(1))
  from rehash_correct[OF inv i0 tr cnt rh]
  show "table_inv ph'" and "\<And>k x. stored ph' k x \<longleftrightarrow> stored ph k x"
    unfolding ph' by blast+
  show "numSlots ph' = numSlots ph * 2" "keySize ph' = keySize ph" "valueSize ph' = valueSize ph"
    "slotSize ph' = slotSize ph" unfolding ph' by simp_all
  then show "unat (numSlots ph') = 2 * unat (numSlots ph)" using n2 by simp
qed

lemma resize_fits:
  assumes inv: "table_inv ph" and fit: "fits ph (2 * m)" and m: "0 < m" and r: "resize ph = Inr ph'"
  shows "fits ph' m"
proof -
  have "fits ph 2" using fit m by (intro fits_mono[OF fit]) simp
  from resize_inv(4,7)[OF inv this r] fit show ?thesis
    by (simp add: fits_def mult.assoc mult.left_commute)
qed

subsection \<open>Put\<close>

lemma putWithRetry_inv:
  "table_inv ph \<Longrightarrow> fits ph (2 ^ (3 - r)) \<Longrightarrow>
   length key = unat (keySize ph) \<Longrightarrow> length val = unat (valueSize ph) \<Longrightarrow>
   putWithRetry ph key val r = (None, ph') \<Longrightarrow>
   table_inv ph' \<and>
   (\<forall>k x. stored ph' k x \<longleftrightarrow> (if k = key then x = val else stored ph k x)) \<and>
   keySize ph' = keySize ph \<and> valueSize ph' = valueSize ph \<and> slotSize ph' = slotSize ph \<and>
   (\<exists>j. unat (numSlots ph') = 2 ^ j * unat (numSlots ph))"
proof (induction "4 - r" arbitrary: r ph)
  case 0
  then have "3 < r" by simp
  with 0(6) show ?case by (simp add: putWithRetry_unfold)
next
  case (Suc m)
  note inv = Suc(3) and fit = Suc(4) and k = Suc(5) and v = Suc(6) and res = Suc(7)
  note g = table_invD(1)[OF inv]
  have r3: "\<not> 3 < r" using Suc(2) by simp
  have nz: "numSlots ph \<noteq> 0" using g by (rule numSlots_nonzero)
  let ?idx = "hashKey key mod numSlots ph"
  show ?case
  proof (cases "probe ph key ?idx 0")
    case Fault
    with res r3 nz show ?thesis by (simp add: putWithRetry_unfold)
  next
    case Full
    with res r3 nz show ?thesis by (simp add: putWithRetry_unfold)
  next
    case (Free w)
    from probe_Free_new[OF inv Free] obtain p where p: "p < unat (numSlots ph)"
      and pw: "unat w = slot_start ph p" and free: "status_at ph p = 0"
      and new: "\<forall>j \<in> occupied ph. key_at ph j \<noteq> key"
      and path: "\<exists>d < unat (numSlots ph). pos ph key d = p \<and>
              (\<forall>i < d. status_at ph (pos ph key i) \<noteq> 0)" by blast
    show ?thesis
    proof (cases "load_exceeded (usedSlots ph + 1) (numSlots ph)")
      case True
      with res r3 nz Free obtain ph1 where rs: "resize ph = Inr ph1"
        and rec: "putWithRetry ph1 key val (r + 1) = (None, ph')"
        by (auto simp: putWithRetry_unfold[of ph] split: sum.splits)
      have r2: "r \<le> 2"
      proof (rule ccontr)
        assume "\<not> r \<le> 2"
        then have "3 < r + 1" by simp
        with rec show False by (simp add: putWithRetry_unfold)
      qed
      then have e: "(2::nat) ^ (3 - r) = 2 * 2 ^ (3 - (r + 1))"
        by (simp add: Suc_diff_le flip: power_Suc)
      have fit2: "fits ph 2" using fit unfolding e by (rule fits_mono) simp
      note ri = resize_inv[OF inv fit2 rs]
      have fit1: "fits ph1 (2 ^ (3 - (r + 1)))"
        using inv fit[unfolded e] _ rs by (rule resize_fits) simp
      have m: "m = 4 - (r + 1)" using Suc(2) by simp
      from Suc(1)[OF m ri(1) fit1 _ _ rec] k v ri
      have *: "table_inv ph' \<and>
         (\<forall>k x. stored ph' k x \<longleftrightarrow> (if k = key then x = val else stored ph k x)) \<and>
         keySize ph' = keySize ph \<and> valueSize ph' = valueSize ph \<and> slotSize ph' = slotSize ph"
        and "\<exists>j. unat (numSlots ph') = 2 ^ j * unat (numSlots ph1)" by simp_all
      then obtain j where "unat (numSlots ph') = 2 ^ j * unat (numSlots ph1)" by blast
      with ri(4) have "unat (numSlots ph') = 2 ^ Suc j * unat (numSlots ph)" by simp
      with * show ?thesis by blast
    next
      case False
      with res r3 nz Free have "ph' = set_slot ph p key val"
        by (simp add: putWithRetry_unfold put_free_branch[OF g p pw k v])
      moreover have "unat (numSlots ph) = 2 ^ 0 * unat (numSlots ph)" by simp
      ultimately show ?thesis
        using set_slot_inv[OF inv p k v free new path] set_slot_stored[OF inv p k v free new]
        by (metis set_slot_fields(1,2,3,4))
    qed
  next
    case (Hit w)
    from probe_Hit_occupied[OF g Hit] obtain p where p: "p \<in> occupied ph"
      and pw: "unat w = slot_start ph p" and kp: "key_at ph p = key" by blast
    have pn: "p < unat (numSlots ph)" using p by (rule occupied_less)
    from res r3 nz Hit have "ph' = set_value ph p val"
      by (simp add: putWithRetry_unfold put_hit_branch[OF g pn pw v])
    moreover have "unat (numSlots ph) = 2 ^ 0 * unat (numSlots ph)" by simp
    ultimately show ?thesis
      using set_value_inv[OF inv pn v] set_value_stored[OF inv p v] kp
      by (metis set_value_fields(1,2,3,4))
  qed
qed


text \<open>A call that returns an error leaves a well-formed table with the same contents.\<close>

lemma putWithRetry_error_inv:
  "table_inv ph \<Longrightarrow> fits ph (2 ^ (4 - r)) \<Longrightarrow>
   length key = unat (keySize ph) \<Longrightarrow> length val = unat (valueSize ph) \<Longrightarrow>
   putWithRetry ph key val r = (Some e, ph') \<Longrightarrow>
   table_inv ph' \<and> (\<forall>k x. stored ph' k x \<longleftrightarrow> stored ph k x)"
proof (induction "4 - r" arbitrary: r ph)
  case 0
  then have "3 < r" by simp
  with 0(6) have "ph' = ph" by (simp add: putWithRetry_unfold)
  with 0(2) show ?case by simp
next
  case (Suc m)
  note inv = Suc(3) and fit = Suc(4) and k = Suc(5) and v = Suc(6) and res = Suc(7)
  note g = table_invD(1)[OF inv]
  have r3: "\<not> 3 < r" using Suc(2) by simp
  have nz: "numSlots ph \<noteq> 0" using g by (rule numSlots_nonzero)
  let ?idx = "hashKey key mod numSlots ph"
  show ?case
  proof (cases "probe ph key ?idx 0")
    case Fault
    with res r3 nz inv show ?thesis by (simp add: putWithRetry_unfold)
  next
    case Full
    with res r3 nz inv show ?thesis by (simp add: putWithRetry_unfold)
  next
    case (Free w)
    from probe_Free_new[OF inv Free] obtain p where p: "p < unat (numSlots ph)"
      and pw: "unat w = slot_start ph p" by blast
    show ?thesis
    proof (cases "load_exceeded (usedSlots ph + 1) (numSlots ph)")
      case True
      show ?thesis
      proof (cases "resize ph")
        case (Inl e')
        with res r3 nz Free True inv show ?thesis by (simp add: putWithRetry_unfold)
      next
        case (Inr ph1)
        with res r3 nz Free True have rec: "putWithRetry ph1 key val (r + 1) = (Some e, ph')"
          by (simp add: putWithRetry_unfold[of ph])
        have e: "(2::nat) ^ (4 - r) = 2 * 2 ^ (4 - (r + 1))"
          using r3 by (simp add: Suc_diff_le flip: power_Suc)
        have fit2: "fits ph 2" using fit unfolding e by (rule fits_mono) simp
        note ri = resize_inv[OF inv fit2 Inr]
        have fit1: "fits ph1 (2 ^ (4 - (r + 1)))"
          using inv fit[unfolded e] _ Inr by (rule resize_fits) simp
        have m: "m = 4 - (r + 1)" using Suc(2) by simp
        from Suc(1)[OF m ri(1) fit1 _ _ rec] k v ri show ?thesis by simp
      qed
    next
      case False
      with res r3 nz Free show ?thesis
        by (simp add: putWithRetry_unfold put_free_branch[OF g p pw k v])
    qed
  next
    case (Hit w)
    from probe_Hit_occupied[OF g Hit] obtain p where p: "p \<in> occupied ph"
      and pw: "unat w = slot_start ph p" by blast
    have pn: "p < unat (numSlots ph)" using p by (rule occupied_less)
    from res r3 nz Hit show ?thesis
      by (simp add: putWithRetry_unfold put_hit_branch[OF g pn pw v])
  qed
qed

lemma Put_valid:
  "length key = unat (keySize ph) \<Longrightarrow> length val = unat (valueSize ph) \<Longrightarrow>
   Put ph key val = putWithRetry ph key val 0"
  by (simp add: Put_def)

lemma Put_inv:
  assumes inv: "table_inv ph" and fit: "fits ph 8"
    and k: "length key = unat (keySize ph)" and v: "length val = unat (valueSize ph)"
    and res: "Put ph key val = (None, ph')"
  shows "table_inv ph'"
    and "\<And>k x. stored ph' k x \<longleftrightarrow> (if k = key then x = val else stored ph k x)"
    and "keySize ph' = keySize ph" and "valueSize ph' = valueSize ph"
    and "slotSize ph' = slotSize ph"
    and "\<exists>j. unat (numSlots ph') = 2 ^ j * unat (numSlots ph)"
proof -
  have pr: "putWithRetry ph key val 0 = (None, ph')" using res k v by (simp add: Put_valid)
  have f: "fits ph (2 ^ (3 - 0))" using fit by simp
  from putWithRetry_inv[OF inv f k v pr]
  show "table_inv ph'"
    and "\<And>k x. stored ph' k x \<longleftrightarrow> (if k = key then x = val else stored ph k x)"
    and "keySize ph' = keySize ph" and "valueSize ph' = valueSize ph"
    and "slotSize ph' = slotSize ph"
    and "\<exists>j. unat (numSlots ph') = 2 ^ j * unat (numSlots ph)"
    by blast+
qed

lemma Put_error_inv:
  assumes inv: "table_inv ph" and fit: "fits ph 16"
    and k: "length key = unat (keySize ph)" and v: "length val = unat (valueSize ph)"
    and res: "Put ph key val = (Some e, ph')"
  shows "table_inv ph'" and "\<And>k x. stored ph' k x \<longleftrightarrow> stored ph k x"
proof -
  have pr: "putWithRetry ph key val 0 = (Some e, ph')" using res k v by (simp add: Put_valid)
  have f: "fits ph (2 ^ (4 - 0))" using fit by simp
  from putWithRetry_error_inv[OF inv f k v pr]
  show "table_inv ph'" and "\<And>k x. stored ph' k x \<longleftrightarrow> stored ph k x" by blast+
qed

section \<open>Consequences of the invariant\<close>

subsection \<open>Get answers from what is stored\<close>

lemma Get_found_stored:
  assumes g: "geometry ph" and r: "Get ph key = Inr (val, True)"
  shows "stored ph key val"
proof -
  let ?idx = "hashKey key mod numSlots ph"
  from r have len: "(of_nat (length key) :: u32) = keySize ph"
    by (auto simp: Get_def split: if_splits)
  with r numSlots_nonzero[OF g] have gl: "get_loop ph key ?idx 0 = Inr (val, True)"
    by (simp add: Get_def)
  then obtain w where w: "probe ph key ?idx 0 = Hit w"
    by (cases "probe ph key ?idx 0") (simp_all add: get_loop_probe)
  from probe_Hit_occupied[OF g w] obtain p where p: "p \<in> occupied ph"
    and pw: "unat w = slot_start ph p" and kp: "key_at ph p = key" by blast
  have pn: "p < unat (numSlots ph)" using p by (rule occupied_less)
  have le: "slot_start ph p + unat (slotSize ph) \<le> length (data ph)" using g pn by (rule slot_end_le)
  have s: "unat (slotSize ph) = 1 + unat (keySize ph) + unat (valueSize ph)" using g by (rule geometryD)
  have "slice (data ph) (w + 1 + keySize ph) (w + slotSize ph) = Some (value_at ph p)"
    using unat_slot_offsets[OF g pn pw] le s by (simp add: slice_def value_at_def)
  with gl w length_value_at[OF g pn] have "val = value_at ph p"
    by (simp add: get_loop_probe)
  with p kp show ?thesis unfolding stored_def by blast
qed

lemma Get_not_stored:
  assumes g: "geometry ph" and n: "\<And>val. \<not> stored ph key val"
  shows "Get ph key = Inr ([], False)"
proof (cases "(of_nat (length key) :: u32) = keySize ph")
  case False
  then show ?thesis by (simp add: Get_def)
next
  case True
  let ?idx = "hashKey key mod numSlots ph"
  have h: "unat ?idx < unat (numSlots ph)" using home_less[OF g, of key] by (simp add: home_def)
  have "get_loop ph key ?idx 0 = Inr ([], False)"
  proof (cases "probe ph key ?idx 0")
    case Fault
    with probe_cases(1)[OF g h, of key 0] show ?thesis by simp
  next
    case Full
    then show ?thesis by (simp add: get_loop_probe)
  next
    case (Free w)
    then show ?thesis by (simp add: get_loop_probe)
  next
    case (Hit w)
    from probe_Hit_occupied[OF g Hit] n show ?thesis unfolding stored_def by blast
  qed
  with True numSlots_nonzero[OF g] show ?thesis by (simp add: Get_def)
qed

text \<open>Two well-formed tables with the same contents answer every \<^verbatim>\<open>Get\<close> alike.\<close>

lemma Get_cong:
  assumes i: "table_inv ph" and i': "table_inv ph'"
    and st: "\<And>k x. stored ph' k x \<longleftrightarrow> stored ph k x"
  shows "Get ph' key = Get ph key"
proof (cases "\<exists>val. stored ph key val")
  case True
  then obtain val where v: "stored ph key val" by blast
  then have "stored ph' key val" by (simp add: st)
  with v Get_stored[OF table_invD(1,4,5)[OF i]] Get_stored[OF table_invD(1,4,5)[OF i']]
  show ?thesis by simp
next
  case False
  then have "\<And>val. \<not> stored ph key val" "\<And>val. \<not> stored ph' key val" by (simp_all add: st)
  with Get_not_stored[OF table_invD(1)[OF i]] Get_not_stored[OF table_invD(1)[OF i']]
  show ?thesis by simp
qed

subsection \<open>Closing and reopening\<close>

lemma Open_Close:
  assumes "header_ok ph"
  shows "Open (Close ph) keySz valueSz = Inr ph"
proof -
  have "28 \<le> length (data ph)" "Uint32 (take 4 (data ph)) = magicNumber"
    using assms by (simp_all add: header_ok_def)
  from Open_nonempty[OF this, of keySz valueSz] assms show ?thesis
    by (simp add: Close_def header_ok_def)
qed

subsection \<open>Every reachable table is well-formed\<close>

lemma Open_empty_inv:
  assumes "Open [] keySz valueSz = Inr ph"
    and fit: "28 + 1024 * (1 + unat keySz + unat valueSz) < 2 ^ 32"
  shows "table_inv ph"
proof -
  have "unat (1 :: u32) + unat keySz < 2 ^ 32" using fit by simp
  then have a: "unat (1 + keySz) = 1 + unat keySz" by (simp add: unat_add32)
  have "unat (1 + keySz) + unat valueSz < 2 ^ 32" using fit a by simp
  then have s: "unat (1 + keySz + valueSz) = 1 + unat keySz + unat valueSz"
    using a by (simp add: unat_add32)
  have "table_inv \<lparr>data = newFile 1024 (1 + keySz + valueSz) keySz valueSz,
                    keySize = keySz, valueSize = valueSz, slotSize = 1 + keySz + valueSz,
                    numSlots = 1024, usedSlots = 0\<rparr>"
    using s fit by (intro newFile_table_inv) simp_all
  with assms(1) show ?thesis by (simp add: Open_empty)
qed

lemma reachable_inv: "reachable ph \<Longrightarrow> table_inv ph"
proof (induction rule: reachable.induct)
  case (opened keySz valueSz ph)
  then show ?case by (rule Open_empty_inv)
next
  case (put ph key val res ph')
  show ?case
  proof (cases "length key = unat (keySize ph) \<and> length val = unat (valueSize ph)")
    case False
    with put(3,4) have "Put ph key val = (Some ValidationError, ph)"
      by (intro Put_validation) auto
    with put(5,6) show ?thesis by simp
  next
    case True
    show ?thesis
    proof (cases res)
      case None
      have "fits ph 8" using put(2) by (rule fits_mono) simp
      with put(5,6) True None show ?thesis by (intro Put_inv(1)[of ph key val ph']) simp_all
    next
      case (Some e)
      with put(2,5,6) True show ?thesis by (intro Put_error_inv(1)[of ph key val e ph']) simp_all
    qed
  qed
next
  case (resized ph ph')
  then show ?case by (intro resize_inv(1)[of ph ph'])
next
  case (reopened ph keySz valueSz ph')
  then have "ph' = ph" using Open_Close[OF table_invD(2)] by simp
  with reopened show ?case by simp
qed

subsection \<open>An insertion at the home slot\<close>

lemma Put_insert_home:
  assumes g: "geometry ph"
    and k: "length key = unat (keySize ph)" and v: "length val = unat (valueSize ph)"
    and free: "status_at ph (home ph key) = 0"
    and nl: "\<not> load_exceeded (usedSlots ph + 1) (numSlots ph)"
  shows "Put ph key val = (None, set_slot ph (home ph key) key val)"
proof -
  let ?idx = "hashKey key mod numSlots ph"
  have h: "unat ?idx < unat (numSlots ph)" using home_less[OF g, of key] by (simp add: home_def)
  have n0: "0 < unat (numSlots ph)" using g by (rule geometryD)
  have p: "(unat ?idx + 0) mod unat (numSlots ph) = home ph key"
    using h by (simp add: home_def)
  define w where "w = headerSize + (?idx + of_nat 0) mod numSlots ph * slotSize ph"
  have w: "unat w = slot_start ph (home ph key)"
    using probe_step(1)[OF g h n0] p by (simp add: w_def)
  have pr: "probe ph key ?idx 0 = Free w"
    using probe_step(2)[OF g h n0, of key] p free by (simp add: w_def)
  have hn: "home ph key < unat (numSlots ph)" using g by (rule home_less)
  have "putWithRetry ph key val 0 = (None, set_slot ph (home ph key) key val)"
    using nl numSlots_nonzero[OF g]
    by (subst putWithRetry_unfold) (simp add: pr put_free_branch[OF g hn w k v])
  then show ?thesis by (simp add: Put_valid[OF k v])
qed

lemma newFile_status:
  assumes n: "0 < unat n" "unat n < 2 ^ 31" and s: "unat s = 1 + unat ks + unat vs"
    and fit: "28 + unat n * unat s < 2 ^ 32" and j: "j < unat n"
  shows "status_at \<lparr>data = newFile n s ks vs, keySize = ks, valueSize = vs, slotSize = s,
                     numSlots = n, usedSlots = 0\<rparr> j = 0"
proof -
  let ?T = "\<lparr>data = newFile n s ks vs, keySize = ks, valueSize = vs, slotSize = s,
                     numSlots = n, usedSlots = 0\<rparr>"
  have g: "geometry ?T" using newFile_table_inv(1)[OF n s fit] by (rule table_invD)
  have "slot_start ?T j < length (data ?T)" using slot_start_less[OF g, of j] j by simp
  then show ?thesis
    using slot_start_ge[of ?T j] by (simp add: status_at_def nth_newFile_slot)
qed

subsection \<open>The load test of an insertion\<close>

lemma putWithRetry_load:
  "table_inv ph \<Longrightarrow> fits ph (2 ^ (3 - r)) \<Longrightarrow>
   length key = unat (keySize ph) \<Longrightarrow> length val = unat (valueSize ph) \<Longrightarrow>
   putWithRetry ph key val r = (None, ph') \<Longrightarrow>
   (if \<exists>x. stored ph key x
    then usedSlots ph' = usedSlots ph \<and> numSlots ph' = numSlots ph
    else \<not> load_exceeded (usedSlots ph') (numSlots ph'))"
proof (induction "4 - r" arbitrary: r ph)
  case 0
  then have "3 < r" by simp
  with 0(6) show ?case by (simp add: putWithRetry_unfold)
next
  case (Suc m)
  note inv = Suc(3) and fit = Suc(4) and k = Suc(5) and v = Suc(6) and res = Suc(7)
  note g = table_invD(1)[OF inv]
  have r3: "\<not> 3 < r" using Suc(2) by simp
  have nz: "numSlots ph \<noteq> 0" using g by (rule numSlots_nonzero)
  let ?idx = "hashKey key mod numSlots ph"
  show ?case
  proof (cases "probe ph key ?idx 0")
    case Fault
    with res r3 nz show ?thesis by (simp add: putWithRetry_unfold)
  next
    case Full
    with res r3 nz show ?thesis by (simp add: putWithRetry_unfold)
  next
    case (Free w)
    from probe_Free_new[OF inv Free] obtain p where p: "p < unat (numSlots ph)"
      and pw: "unat w = slot_start ph p"
      and new: "\<forall>j \<in> occupied ph. key_at ph j \<noteq> key" by blast
    from new have ns: "\<not> (\<exists>x. stored ph key x)" by (auto simp: stored_def)
    show ?thesis
    proof (cases "load_exceeded (usedSlots ph + 1) (numSlots ph)")
      case True
      with res r3 nz Free obtain ph1 where rs: "resize ph = Inr ph1"
        and rec: "putWithRetry ph1 key val (r + 1) = (None, ph')"
        by (auto simp: putWithRetry_unfold[of ph] split: sum.splits)
      have r2: "r \<le> 2"
      proof (rule ccontr)
        assume "\<not> r \<le> 2"
        then have "3 < r + 1" by simp
        with rec show False by (simp add: putWithRetry_unfold)
      qed
      then have e: "(2::nat) ^ (3 - r) = 2 * 2 ^ (3 - (r + 1))"
        by (simp add: Suc_diff_le flip: power_Suc)
      have fit2: "fits ph 2" using fit unfolding e by (rule fits_mono) simp
      note ri = resize_inv[OF inv fit2 rs]
      have fit1: "fits ph1 (2 ^ (3 - (r + 1)))"
        using inv fit[unfolded e] _ rs by (rule resize_fits) simp
      have m: "m = 4 - (r + 1)" using Suc(2) by simp
      have k1: "length key = unat (keySize ph1)" and v1: "length val = unat (valueSize ph1)"
        using k v ri(5,6) by simp_all
      have ns1: "\<not> (\<exists>x. stored ph1 key x)" using ns ri(2) by simp
      from Suc(1)[OF m ri(1) fit1 k1 v1 rec] ns1 ns show ?thesis by (auto split: if_splits)
    next
      case False
      with res r3 nz Free have "ph' = set_slot ph p key val"
        by (simp add: putWithRetry_unfold put_free_branch[OF g p pw k v])
      with False ns show ?thesis by (auto split: if_splits)
    qed
  next
    case (Hit w)
    from probe_Hit_occupied[OF g Hit] obtain p where p: "p \<in> occupied ph"
      and pw: "unat w = slot_start ph p" and kp: "key_at ph p = key" by blast
    have pn: "p < unat (numSlots ph)" using p by (rule occupied_less)
    from res r3 nz Hit have "ph' = set_value ph p val"
      by (simp add: putWithRetry_unfold put_hit_branch[OF g pn pw v])
    moreover from p kp have "\<exists>x. stored ph key x" by (auto simp: stored_def)
    ultimately show ?thesis by (auto split: if_splits)
  qed
qed

subsection \<open>A probe that stops at the home slot, on any table\<close>


lemma home_mod:
  "numSlots ph \<noteq> 0 \<Longrightarrow>
   hashKey key mod numSlots ph mod numSlots ph = hashKey key mod numSlots ph"
  by (simp add: mod_word_less word_mod_less_divisor word_neq_0_conv)

lemma probe_home_free:
  assumes nz: "numSlots ph \<noteq> 0"
    and w: "w = headerSize + (hashKey key mod numSlots ph) * slotSize ph"
    and inb: "unat w < length (data ph)" and st: "data ph ! unat w = 0"
  shows "probe ph key (hashKey key mod numSlots ph) 0 = Free w"
proof -
  have "0 < unat (numSlots ph)" using nz by (simp add: unat_gt_0)
  then show ?thesis
    using inb st unfolding w
    by (subst probe.simps) (simp add: Let_def home_mod[OF nz])
qed

lemma probe_home_hit:
  assumes nz: "numSlots ph \<noteq> 0"
    and w: "w = headerSize + (hashKey key mod numSlots ph) * slotSize ph"
    and inb: "unat w < length (data ph)" and st: "data ph ! unat w = 1"
    and ks: "slice (data ph) (w + 1) (w + 1 + keySize ph) = Some key"
  shows "probe ph key (hashKey key mod numSlots ph) 0 = Hit w"
proof -
  have "0 < unat (numSlots ph)" using nz by (simp add: unat_gt_0)
  then show ?thesis
    using inb st ks unfolding w
    by (subst probe.simps) (simp add: Let_def home_mod[OF nz])
qed

lemma putWithRetry_home_free:
  assumes nz: "numSlots ph \<noteq> 0"
    and w: "w = headerSize + (hashKey key mod numSlots ph) * slotSize ph"
    and inb: "unat w < length (data ph)" and st: "data ph ! unat w = 0"
    and nl: "\<not> load_exceeded (usedSlots ph + 1) (numSlots ph)"
  shows "putWithRetry ph key val 0 = insert_slot ph w key val"
  using nz nl by (subst putWithRetry_unfold) (simp add: probe_home_free[OF nz w inb st])

lemma putWithRetry_home_hit:
  assumes nz: "numSlots ph \<noteq> 0"
    and w: "w = headerSize + (hashKey key mod numSlots ph) * slotSize ph"
    and inb: "unat w < length (data ph)" and st: "data ph ! unat w = 1"
    and ks: "slice (data ph) (w + 1) (w + 1 + keySize ph) = Some key"
  shows "putWithRetry ph key val 0 =
     (case copy_at (data ph) (w + 1 + keySize ph) val of
        None \<Rightarrow> (Some Panic, ph)
      | Some d \<Rightarrow> (None, ph\<lparr>data := d\<rparr>))"
  using nz by (subst putWithRetry_unfold) (simp add: probe_home_hit[OF nz w inb st ks])

lemma Get_home_hit:
  assumes len: "(of_nat (length key) :: u32) = keySize ph"
    and nz: "numSlots ph \<noteq> 0"
    and w: "w = headerSize + (hashKey key mod numSlots ph) * slotSize ph"
    and inb: "unat w < length (data ph)" and st: "data ph ! unat w = 1"
    and ks: "slice (data ph) (w + 1) (w + 1 + keySize ph) = Some key"
  shows "Get ph key =
     (case slice (data ph) (w + 1 + keySize ph) (w + slotSize ph) of
        None \<Rightarrow> Inl Panic
      | Some v \<Rightarrow>
          Inr (take (unat (valueSize ph)) v @ replicate (unat (valueSize ph) - length v) 0, True))"
  using len nz by (simp add: Get_def get_loop_probe probe_home_hit[OF nz w inb st ks])


section \<open>The example tables\<close>

lemma table2_inv: "table_inv table2"
proof -
  have "table_inv \<lparr>data = newFile 2 3 1 1, keySize = 1, valueSize = 1, slotSize = 3,
                    numSlots = 2, usedSlots = 0\<rparr>"
    by (rule newFile_table_inv) simp_all
  then show ?thesis by (simp add: table2_def file2_def)
qed

lemma table2_fits: "fits table2 16"
  by (simp add: fits_def table2_def)

lemma table2_sizes: "unat (keySize table2) = 1" "unat (valueSize table2) = 1"
  by (simp_all add: table2_def)

lemma Put_table2: "Put table2 [5] [50] = (None, table2_5)"
proof -
  have "fst (Put table2 [5] [50]) = None" by code_simp
  then show ?thesis by (simp add: table2_5_def prod_eq_iff)
qed

lemma table2_5_eq:
  "table2_5 = \<lparr>data = [0x70, 0x68, 0x73, 0x68, 0, 0, 0, 1, 0, 0, 0, 2, 0, 0, 0, 1,
                        0, 0, 0, 3, 0, 0, 0, 1, 0, 0, 0, 1, 1, 5, 50, 0, 0, 0],
               keySize = 1, valueSize = 1, slotSize = 3, numSlots = 2, usedSlots = 1\<rparr>"
  by code_simp

lemma resize_table2_5: "resize table2_5 = Inr table4_5"
  by code_simp

lemma table2_5_inv: "table_inv table2_5"
  using table2_inv _ _ _ Put_table2
  by (rule Put_inv(1)) (simp_all add: fits_mono[OF table2_fits] table2_sizes)

lemma table2_5_fits: "fits table2_5 16"
  by (simp add: fits_def table2_5_eq)

lemma table2_5_sizes: "unat (keySize table2_5) = 1" "unat (valueSize table2_5) = 1"
  by (simp_all add: table2_5_eq)

lemma Put_table2_5: "Put table2_5 [7] [70] = (None, table4_5_7)"
  by code_simp

lemma Get_table4_5_7: "Get table4_5_7 [5] = Inr ([50], True)" "Get table4_5_7 [7] = Inr ([70], True)"
  by code_simp+

subsection \<open>The new 1024-slot table and two insertions\<close>

lemma Open_fresh11: "Open [] 1 1 = Inr fresh11"
  by (simp add: Open_empty fresh11_def)

lemma fresh11_inv: "table_inv fresh11"
  using Open_fresh11 by (rule Open_empty_inv) simp

lemma fresh11_status: "j < 1024 \<Longrightarrow> status_at fresh11 j = 0"
  unfolding fresh11_def by (rule newFile_status) simp_all

lemma fresh11_home: "home fresh11 [5] = 320" "home fresh11 [7] = 102"
proof -
  have "hashKey [5] mod 1024 = 320" "hashKey [7] mod 1024 = 102" by code_simp+
  then show "home fresh11 [5] = 320" "home fresh11 [7] = 102"
    by (simp_all add: home_def fresh11_def)
qed

lemma load_1024: "\<not> load_exceeded 1 1024" "\<not> load_exceeded 2 1024"
  by code_simp+

lemma Put_fresh11: "Put fresh11 [5] [50] = (None, fresh11_5)"
proof -
  have "Put fresh11 [5] [50] = (None, set_slot fresh11 (home fresh11 [5]) [5] [50])"
    using table_invD(1)[OF fresh11_inv]
    by (rule Put_insert_home) (simp_all add: fresh11_home fresh11_status, simp_all add: fresh11_def load_1024)
  then show ?thesis by (simp add: fresh11_5_def fresh11_home)
qed

lemma fresh11_5_fields:
  "keySize fresh11_5 = 1" "valueSize fresh11_5 = 1" "slotSize fresh11_5 = 3"
  "numSlots fresh11_5 = 1024" "usedSlots fresh11_5 = 1"
  by (simp_all add: fresh11_5_def fresh11_def)

lemma fresh11_5_inv: "table_inv fresh11_5"
  using fresh11_inv _ _ _ Put_fresh11
  by (rule Put_inv(1)) (simp_all add: fresh11_def fits_def)

lemma fresh11_5_slots:
  assumes "j < 1024"
  shows "status_at fresh11_5 j = (if j = 320 then 1 else 0)"
    and "key_at fresh11_5 j = (if j = 320 then [5] else key_at fresh11 j)"
proof -
  have g: "geometry fresh11" using fresh11_inv by (rule table_invD)
  have a: "(320 :: nat) < unat (numSlots fresh11)" "j < unat (numSlots fresh11)"
    "length [5 :: u8] = unat (keySize fresh11)" "length [50 :: u8] = unat (valueSize fresh11)"
    using assms by (simp_all add: fresh11_def)
  from set_slot_slots(1,2)[OF g a(1,3,4,2)] fresh11_status[OF assms]
  show "status_at fresh11_5 j = (if j = 320 then 1 else 0)"
    and "key_at fresh11_5 j = (if j = 320 then [5] else key_at fresh11 j)"
    by (simp_all add: fresh11_5_def)
qed

lemma Put_fresh11_5: "Put fresh11_5 [7] [70] = (None, fresh11_5_7)"
proof -
  have h: "home fresh11_5 [7] = 102"
    using fresh11_home(2) by (simp add: home_def fresh11_5_fields fresh11_def)
  have "Put fresh11_5 [7] [70] = (None, set_slot fresh11_5 (home fresh11_5 [7]) [7] [70])"
    using table_invD(1)[OF fresh11_5_inv]
    by (rule Put_insert_home) (simp_all add: h fresh11_5_slots fresh11_5_fields load_1024)
  then show ?thesis by (simp add: fresh11_5_7_def h)
qed

lemma fresh11_5_7_slots:
  "status_at fresh11_5_7 320 = 1" "status_at fresh11_5_7 102 = 1"
  "key_at fresh11_5_7 320 = [5]" "key_at fresh11_5_7 102 = [7]"
proof -
  have g: "geometry fresh11_5" using fresh11_5_inv by (rule table_invD)
  have a: "(102 :: nat) < unat (numSlots fresh11_5)"
    "length [7 :: u8] = unat (keySize fresh11_5)" "length [70 :: u8] = unat (valueSize fresh11_5)"
    "(320 :: nat) < unat (numSlots fresh11_5)"
    by (simp_all add: fresh11_5_fields)
  from set_slot_slots(1,2)[OF g a(1,2,3,4)] set_slot_slots(1,2)[OF g a(1,2,3,1)]
  show "status_at fresh11_5_7 320 = 1" "status_at fresh11_5_7 102 = 1"
    "key_at fresh11_5_7 320 = [5]" "key_at fresh11_5_7 102 = [7]"
    by (simp_all add: fresh11_5_7_def fresh11_5_slots)
qed

lemma fresh11_reachable: "reachable fresh11" "reachable fresh11_5" "reachable fresh11_5_7"
proof -
  show r0: "reachable fresh11" using Open_fresh11 by (rule reachable.opened) simp
  show r1: "reachable fresh11_5"
    using r0 _ _ _ Put_fresh11 by (rule reachable.put) (simp_all add: fits_def fresh11_def)
  show "reachable fresh11_5_7"
    using r1 _ _ _ Put_fresh11_5 by (rule reachable.put) (simp_all add: fits_def fresh11_5_fields)
qed

subsection \<open>A table of \<open>2^26\<close> slots\<close>

lemma big_file_length: "length big_file = 335544348"
  by (simp add: big_file_def)

lemma big_table_geometry: "geometry big_table"
  by (simp add: geometry_def big_table_def big_file_length)

lemma Open_big_file: "Open big_file keySz valueSz = Inr big_table"
proof -
  have "28 \<le> length big_file" by (simp add: big_file_length)
  moreover have "Uint32 (take 4 big_file) = magicNumber" by (simp add: big_file_def)
  ultimately show ?thesis
    by (simp add: Open_nonempty big_table_def) (simp add: big_file_def)
qed

lemma big_table_home: "home big_table [0, 0, 0, 0] = 60159253"
proof -
  have "hashKey [0, 0, 0, 0] mod 67108864 = 60159253" by code_simp
  then show ?thesis by (simp add: home_def big_table_def)
qed

lemma big_table_status: "status_at big_table 60159253 = 0"
  by (simp add: status_at_def slot_start_def big_table_def big_file_def nth_append)

lemma big_table_load: "\<not> load_exceeded 46976205 67108864"
  by code_simp

lemma Put_big_table:
  "Put big_table [0, 0, 0, 0] [] = (None, set_slot big_table 60159253 [0, 0, 0, 0] [])"
proof -
  have "Put big_table [0, 0, 0, 0] [] = (None, set_slot big_table (home big_table [0, 0, 0, 0]) [0, 0, 0, 0] [])"
    using big_table_geometry
  proof (rule Put_insert_home)
    show "status_at big_table (home big_table [0, 0, 0, 0]) = 0"
      by (simp add: big_table_home big_table_status)
    show "\<not> load_exceeded (usedSlots big_table + 1) (numSlots big_table)"
      using big_table_load by (simp add: big_table_def)
  qed (simp_all add: big_table_def)
  then show ?thesis by (simp add: big_table_home)
qed

lemma table2_5_not_stored_7: "\<not> stored table2_5 [7] x"
proof
  assume "stored table2_5 [7] x"
  then obtain j where j: "j < unat (numSlots table2_5)" and s: "status_at table2_5 j = 1"
    and kj: "key_at table2_5 j = [7]" by (auto simp: stored_def occupied_def)
  have c: "key_at table2_5 0 = [5]" "status_at table2_5 1 = 0" by code_simp+
  from j have "j = 0 \<or> j = 1" by (auto simp: table2_5_eq)
  then show False
  proof
    assume "j = 0"
    with kj c(1) show False by simp
  next
    assume "j = 1"
    with s c(2) show False by simp
  qed
qed

section \<open>Tables at the edge of 32-bit sizes, evaluated\<close>

lemma home_2_69: "hashKey [2, 69] mod 1024 = 0" "hashKey [2, 69] mod 2048 = 0"
  by code_simp+

lemma home_0_147_1: "hashKey [0, 147, 1] mod 1024 = 1023"
  by code_simp

subsection \<open>The table whose file size wraps\<close>

lemma Open_wrap_table: "Open [] 2 4194302 = Inr wrap_table"
  by (simp add: Open_empty wrap_table_def)

lemma wrap_table_data:
  "data wrap_table = [0x70, 0x68, 0x73, 0x68, 0, 0, 0, 1, 0, 0, 4, 0, 0, 0, 0, 0,
              0, 0x40, 0, 1, 0, 0, 0, 2, 0, 0x3F, 0xFF, 0xFE] @ replicate 1024 0"
  by (simp add: wrap_table_def newFile_def newHeader_def PutUint32_def magicNumber_def version_def headerSize_def)

lemma insert_wrap_table:
  "insert_slot wrap_table 28 [2, 69] wrap_value = (None, wrap_table_put)"
  by (simp add: insert_slot_def copy_at_def put_used_def wrap_table_data wrap_value_def
        wrap_table_put_def PutUint32_def Let_def)
     (simp add: wrap_table_def)

lemma Put_wrap_table: "Put wrap_table [2, 69] wrap_value = (None, wrap_table_put)"
proof -
  have "putWithRetry wrap_table [2, 69] wrap_value 0 = insert_slot wrap_table 28 [2, 69] wrap_value"
  proof (rule putWithRetry_home_free)
    show "numSlots wrap_table \<noteq> 0" by (simp add: wrap_table_def)
    show "28 = headerSize + hashKey [2, 69] mod numSlots wrap_table * slotSize wrap_table"
      by (simp add: wrap_table_def home_2_69 headerSize_def)
    show "unat (28 :: u32) < length (data wrap_table)" by (simp add: wrap_table_data)
    show "data wrap_table ! unat (28 :: u32) = 0" by (simp add: wrap_table_data nth_append)
    show "\<not> load_exceeded (usedSlots wrap_table + 1) (numSlots wrap_table)"
      by (simp add: wrap_table_def load_1024)
  qed
  then show ?thesis
    by (simp add: Put_def insert_wrap_table) (simp add: wrap_table_def wrap_value_def)
qed

lemma wrap_table_put_home:
  "numSlots wrap_table_put \<noteq> 0"
  "28 = headerSize + hashKey [2, 69] mod numSlots wrap_table_put * slotSize wrap_table_put"
  "unat (28 :: u32) < length (data wrap_table_put)"
  "data wrap_table_put ! unat (28 :: u32) = 1"
  "slice (data wrap_table_put) (28 + 1) (28 + 1 + keySize wrap_table_put) = Some [2, 69]"
  by (simp_all add: wrap_table_put_def home_2_69 headerSize_def slice_def)

lemma Get_wrap_table_put: "Get wrap_table_put [2, 69] = Inl Panic"
proof -
  have "(of_nat (length [2 :: u8, 69]) :: u32) = keySize wrap_table_put"
    by (simp add: wrap_table_put_def)
  from Get_home_hit[OF this wrap_table_put_home]
  show ?thesis by (simp add: wrap_table_put_def slice_def)
qed

lemma Put_wrap_table_put: "Put wrap_table_put [2, 69] wrap_value2 = (None, wrap_table_put2)"
proof -
  from putWithRetry_home_hit[OF wrap_table_put_home, of wrap_value2]
  have "putWithRetry wrap_table_put [2, 69] wrap_value2 0 = (None, wrap_table_put2)"
    by (simp add: wrap_table_put_def wrap_table_put2_def wrap_value2_def copy_at_def)
  then show ?thesis
    by (simp add: Put_def) (simp add: wrap_table_put_def wrap_value2_def)
qed

lemma Get_wrap_table_put2: "Get wrap_table_put2 [2, 69] = Inl Panic"
proof -
  have "(of_nat (length [2 :: u8, 69]) :: u32) = keySize wrap_table_put2"
    by (simp add: wrap_table_put2_def)
  from Get_home_hit[OF this, of 28]
  show ?thesis by (simp add: wrap_table_put2_def slice_def home_2_69 headerSize_def)
qed

subsection \<open>A value slice of \<open>2^32 + 1\<close> bytes\<close>

lemma Open_trunc_table: "Open [] 2 1 = Inr trunc_table"
  by (simp add: Open_empty trunc_table_def)

lemma trunc_table_data:
  "data trunc_table = [0x70, 0x68, 0x73, 0x68, 0, 0, 0, 1, 0, 0, 4, 0, 0, 0, 0, 0,
              0, 0, 0, 4, 0, 0, 0, 2, 0, 0, 0, 1] @ replicate 4096 0"
  by (simp add: trunc_table_def newFile_def newHeader_def PutUint32_def magicNumber_def version_def headerSize_def)

lemma length_trunc_value: "length trunc_value = 4294967297"
  by (simp add: trunc_value_def)

lemma insert_trunc_table:
  "insert_slot trunc_table 28 [2, 69] trunc_value = (None, trunc_table_put)"
  by (simp add: insert_slot_def copy_at_def put_used_def trunc_table_data trunc_value_def
        trunc_table_put_def PutUint32_def Let_def)
     (simp add: trunc_table_def)

lemma Put_trunc_table: "Put trunc_table [2, 69] trunc_value = (None, trunc_table_put)"
proof -
  have "putWithRetry trunc_table [2, 69] trunc_value 0 = insert_slot trunc_table 28 [2, 69] trunc_value"
  proof (rule putWithRetry_home_free)
    show "numSlots trunc_table \<noteq> 0" by (simp add: trunc_table_def)
    show "28 = headerSize + hashKey [2, 69] mod numSlots trunc_table * slotSize trunc_table"
      by (simp add: trunc_table_def home_2_69 headerSize_def)
    show "unat (28 :: u32) < length (data trunc_table)" by (simp add: trunc_table_data)
    show "data trunc_table ! unat (28 :: u32) = 0" by (simp add: trunc_table_data nth_append)
    show "\<not> load_exceeded (usedSlots trunc_table + 1) (numSlots trunc_table)"
      by (simp add: trunc_table_def load_1024)
  qed
  then show ?thesis
    by (simp add: Put_def insert_trunc_table length_trunc_value) (simp add: trunc_table_def)
qed

lemma trunc_table_put_slots:
  "status_at trunc_table_put 0 = 1" "status_at trunc_table_put 1 = 1"
  "key_at trunc_table_put 0 = [2, 69]" "key_at trunc_table_put 1 = [2, 69]"
  by (simp_all add: status_at_def key_at_def slot_start_def trunc_table_put_def)

subsection \<open>The table whose last slot lies in the header\<close>

lemma Open_hdr_table: "Open [] 3 4198400 = Inr hdr_table"
  by (simp add: Open_empty hdr_table_def)

lemma hdr_table_data:
  "data hdr_table = [0x70, 0x68, 0x73, 0x68, 0, 0, 0, 1, 0, 0, 4, 0, 0, 0, 0, 0,
              0, 0x40, 0x10, 4, 0, 0, 0, 3, 0, 0x40, 0x10, 0] @ replicate 4198400 0"
  by (simp add: hdr_table_def newFile_def newHeader_def PutUint32_def magicNumber_def version_def headerSize_def)

lemma insert_hdr_table:
  "insert_slot hdr_table 24 [0, 147, 1] hdr_value = (None, hdr_table_put)"
  by (simp add: insert_slot_def copy_at_def put_used_def hdr_table_data hdr_value_def
        hdr_table_put_def PutUint32_def Let_def)
     (simp add: hdr_table_def)

lemma Put_hdr_table: "Put hdr_table [0, 147, 1] hdr_value = (None, hdr_table_put)"
proof -
  have "putWithRetry hdr_table [0, 147, 1] hdr_value 0
          = insert_slot hdr_table 24 [0, 147, 1] hdr_value"
  proof (rule putWithRetry_home_free)
    show "numSlots hdr_table \<noteq> 0" by (simp add: hdr_table_def)
    show "24 = headerSize + hashKey [0, 147, 1] mod numSlots hdr_table * slotSize hdr_table"
      by (simp add: hdr_table_def home_0_147_1 headerSize_def)
    show "unat (24 :: u32) < length (data hdr_table)" by (simp add: hdr_table_data)
    show "data hdr_table ! unat (24 :: u32) = 0" by (simp add: hdr_table_data nth_append)
    show "\<not> load_exceeded (usedSlots hdr_table + 1) (numSlots hdr_table)"
      by (simp add: hdr_table_def load_1024)
  qed
  then show ?thesis
    by (simp add: Put_def insert_hdr_table) (simp add: hdr_table_def hdr_value_def)
qed

lemma Get_hdr_table_put: "Get hdr_table_put [0, 147, 1] = Inr (hdr_value, True)"
proof -
  have "(of_nat (length [0 :: u8, 147, 1]) :: u32) = keySize hdr_table_put"
    by (simp add: hdr_table_put_def)
  from Get_home_hit[OF this, of 24]
  show ?thesis by (simp add: hdr_table_put_def slice_def home_0_147_1 headerSize_def hdr_value_def)
qed

lemma Open_hdr_table_put:
  "Open (Close hdr_table_put) 3 4198400 = Inr hdr_table_reopened"
proof -
  let ?f = "Close hdr_table_put"
  have "28 \<le> length ?f" by (simp add: Close_def hdr_table_put_def)
  moreover have "Uint32 (take 4 ?f) = magicNumber"
    by (simp add: Close_def hdr_table_put_def Uint32_def magicNumber_def)
  ultimately have "Open ?f 3 4198400 =
           Inr \<lparr>data = ?f,
                keySize = Uint32 (take 4 (drop 20 ?f)), valueSize = Uint32 (take 4 (drop 24 ?f)),
                slotSize = Uint32 (take 4 (drop 16 ?f)), numSlots = Uint32 (take 4 (drop 8 ?f)),
                usedSlots = Uint32 (take 4 (drop 12 ?f))\<rparr>"
    by (rule Open_nonempty)
  then show ?thesis
    by (simp add: Close_def hdr_table_reopened_def hdr_table_put_def Uint32_def)
qed

lemma Get_hdr_table_reopened:
  "Get hdr_table_reopened [0, 147, 1] = Inr (hdr_value @ replicate 12616449 0, True)"
proof -
  have "(of_nat (length [0 :: u8, 147, 1]) :: u32) = keySize hdr_table_reopened"
    by (simp add: hdr_table_reopened_def hdr_table_put_def)
  from Get_home_hit[OF this, of 24]
  show ?thesis
    by (simp add: hdr_table_reopened_def hdr_table_put_def slice_def home_0_147_1 headerSize_def
          hdr_value_def)
qed

subsection \<open>The table whose doubled size wraps\<close>












subsection \<open>An overlong value for an existing key\<close>

lemma home_5: "hashKey [5] mod 2 = 0"
  by code_simp

lemma length_long_value: "length long_value = 4294967297"
  by (simp add: long_value_def)

lemma Put_table2_5_long: "Put table2_5 [5] long_value = (None, table2_5_long)"
proof -
  have "putWithRetry table2_5 [5] long_value 0 =
     (case copy_at (data table2_5) (28 + 1 + keySize table2_5) long_value of
        None \<Rightarrow> (Some Panic, table2_5)
      | Some d \<Rightarrow> (None, table2_5\<lparr>data := d\<rparr>))"
    by (rule putWithRetry_home_hit)
       (simp_all add: table2_5_eq home_5 headerSize_def slice_def)
  then have "putWithRetry table2_5 [5] long_value 0 = (None, table2_5_long)"
    by (simp add: table2_5_eq table2_5_long_def long_value_def copy_at_def)
  then show ?thesis
    by (simp add: Put_def length_long_value) (simp add: table2_5_eq)
qed

lemma table2_5_long_slots:
  "status_at table2_5 1 = 0" "status_at table2_5_long 1 = 9"
  "key_at table2_5_long 1 = [9]" "value_at table2_5_long 1 = [9]"
  by (simp_all add: status_at_def key_at_def value_at_def slot_start_def table2_5_eq
        table2_5_long_def)

section \<open>Within 32-bit offsets\<close>

subsection \<open>A key that was put is found\<close>

text \<open>
  On a well-formed table (\<open>table_inv\<close>, which \<open>reachable_inv\<close> shows of every table
  reached within 32-bit offsets) whose capacity can still be doubled three times within them
  (\<open>fits ph 8\<close>; a successful \<^verbatim>\<open>Put\<close> resizes at most three times), for every key of
  length \<open>keySize\<close> and value of length \<open>valueSize\<close>: if \<^verbatim>\<open>Put(key, value)\<close> returns
  success, \<^verbatim>\<open>Get(key)\<close> on the resulting table returns \<open>(value, true)\<close>.
\<close>

theorem Put_then_Get:
  assumes "table_inv ph" and "fits ph 8"
    and "length key = unat (keySize ph)" and "length val = unat (valueSize ph)"
    and "Put ph key val = (None, ph')"
  shows "Get ph' key = Inr (val, True)"
proof -
  note r = Put_inv[OF assms]
  have "stored ph' key val" using r(2)[of key val] by simp
  with table_invD(1,4,5)[OF r(1)] show ?thesis by (intro Get_stored)
qed

theorem Put_then_Get_witness:
  "table_inv table2 \<and> fits table2 8 \<and>
   length [5 :: u8] = unat (keySize table2) \<and> length [50 :: u8] = unat (valueSize table2) \<and>
   Put table2 [5] [50] = (None, table2_5) \<and> Get table2_5 [5] = Inr ([50], True) \<and>
   table_inv table2_5 \<and> fits table2_5 8 \<and>
   Put table2_5 [7] [70] = (None, table4_5_7) \<and> numSlots table4_5_7 = 2 * numSlots table2_5 \<and>
   Get table4_5_7 [7] = Inr ([70], True)"
proof -
  have f: "fits table2 8" "fits table2_5 8"
    by (rule fits_mono[OF table2_fits], simp, rule fits_mono[OF table2_5_fits], simp)
  have l: "length [5 :: u8] = unat (keySize table2)" "length [50 :: u8] = unat (valueSize table2)"
    "length [7 :: u8] = unat (keySize table2_5)" "length [70 :: u8] = unat (valueSize table2_5)"
    by (simp_all add: table2_sizes table2_5_sizes)
  have "Get table2_5 [5] = Inr ([50], True)"
    using table2_inv f(1) l(1,2) Put_table2 by (rule Put_then_Get)
  moreover have "Get table4_5_7 [7] = Inr ([70], True)"
    using table2_5_inv f(2) l(3,4) Put_table2_5 by (rule Put_then_Get)
  moreover have "numSlots table4_5_7 = 2 * numSlots table2_5"
    by (simp add: table4_5_7_def table2_5_eq)
  ultimately show ?thesis
    using table2_inv table2_5_inv f l Put_table2 Put_table2_5 by simp
qed

subsection \<open>Keys are unique\<close>

text \<open>
  In every table reachable from a new file by \<^verbatim>\<open>Open\<close>, \<^verbatim>\<open>Put\<close>, \<^verbatim>\<open>Get\<close>, \<^verbatim>\<open>resize\<close> and
  reopening, with key and value slices shorter than \<open>2^32\<close> bytes and within 32-bit offsets
  (the side conditions of \<open>reachable\<close>), no two distinct occupied slots hold equal key bytes.
\<close>

theorem reachable_keys_unique:
  assumes "reachable ph"
  shows "\<forall>i < unat (numSlots ph). \<forall>j < unat (numSlots ph).
           status_at ph i = 1 \<and> status_at ph j = 1 \<and> key_at ph i = key_at ph j \<longrightarrow> i = j"
proof -
  have "keys_unique ph" using reachable_inv[OF assms] by (rule table_invD)
  then show ?thesis unfolding keys_unique_def occupied_def by blast
qed

theorem reachable_keys_unique_witness:
  "reachable fresh11_5_7 \<and> unat (numSlots fresh11_5_7) = 1024 \<and>
   status_at fresh11_5_7 320 = 1 \<and> status_at fresh11_5_7 102 = 1 \<and>
   key_at fresh11_5_7 320 \<noteq> key_at fresh11_5_7 102"
proof -
  have n: "unat (numSlots fresh11_5_7) = 1024"
    by (simp add: fresh11_5_7_def fresh11_5_fields)
  have "key_at fresh11_5_7 320 \<noteq> key_at fresh11_5_7 102"
  proof
    assume "key_at fresh11_5_7 320 = key_at fresh11_5_7 102"
    moreover from reachable_keys_unique[OF fresh11_reachable(3)]
    have "(320 :: nat) < 1024 \<longrightarrow> (102 :: nat) < 1024 \<longrightarrow>
        status_at fresh11_5_7 320 = 1 \<and> status_at fresh11_5_7 102 = 1 \<and>
        key_at fresh11_5_7 320 = key_at fresh11_5_7 102 \<longrightarrow> (320 :: nat) = 102"
      unfolding n by blast
    ultimately show False using fresh11_5_7_slots(1,2) by simp
  qed
  with n fresh11_reachable(3) fresh11_5_7_slots(1,2) show ?thesis by simp
qed

subsection \<open>Closing and reopening\<close>

text \<open>
  For every table whose header bytes agree with the cached fields (\<open>header_ok\<close>, part
  of \<open>table_inv\<close> and so true of every table reached within 32-bit offsets), closing it
  and opening the file again with the same key and value sizes gives back the very same
  handle; hence \<^verbatim>\<open>Get\<close> returns the same value and found flag for every key as before
  the \<^verbatim>\<open>Close\<close>.
\<close>

theorem Close_then_Open:
  assumes "header_ok ph"
  shows "Open (Close ph) (keySize ph) (valueSize ph) = Inr ph \<and>
         (\<forall>ph'. Open (Close ph) (keySize ph) (valueSize ph) = Inr ph' \<longrightarrow>
                (\<forall>key. Get ph' key = Get ph key))"
  using Open_Close[OF assms] by simp

theorem Close_then_Open_witness:
  "header_ok table4_5_7 \<and>
   Open (Close table4_5_7) 1 1 = Inr table4_5_7 \<and>
   Get table4_5_7 [5] = Inr ([50], True) \<and> Get table4_5_7 [7] = Inr ([70], True) \<and>
   Get table4_5_7 [9] = Inr ([], False)"
proof -
  have "table_inv table4_5_7"
    using table2_5_inv _ _ _ Put_table2_5
    by (rule Put_inv(1)) (simp_all add: fits_mono[OF table2_5_fits] table2_5_sizes)
  then have h: "header_ok table4_5_7" by (rule table_invD)
  have g: "Get table4_5_7 [9] = Inr ([], False)" by code_simp
  have k: "keySize table4_5_7 = 1" "valueSize table4_5_7 = 1" by (simp_all add: table4_5_7_def)
  from Close_then_Open[OF h] have "Open (Close table4_5_7) 1 1 = Inr table4_5_7"
    unfolding k by (rule conjunct1)
  with h g Get_table4_5_7 show ?thesis by (intro conjI)
qed

subsection \<open>Overwriting an existing key\<close>

text \<open>
  In a well-formed table, a \<^verbatim>\<open>Put\<close> of the key held by an occupied slot \<open>p\<close> (with a
  value of length \<open>valueSize\<close>) returns success and changes nothing but the value bytes of
  that slot: the cached fields are the same, the mapping has the same length and the same
  bytes everywhere outside the value of slot \<open>p\<close> (so the header, with the stored
  \<open>usedSlots\<close>, the status byte and key of slot \<open>p\<close>, and every other slot are unchanged),
  the value of slot \<open>p\<close> is the new one, and \<^verbatim>\<open>Get\<close> returns it.
\<close>

theorem Put_overwrite:
  assumes inv: "table_inv ph" and v: "length val = unat (valueSize ph)" and p: "p \<in> occupied ph"
  shows "\<exists>ph'. Put ph (key_at ph p) val = (None, ph') \<and>
           usedSlots ph' = usedSlots ph \<and> numSlots ph' = numSlots ph \<and>
           keySize ph' = keySize ph \<and> valueSize ph' = valueSize ph \<and> slotSize ph' = slotSize ph \<and>
           length (data ph') = length (data ph) \<and>
           (\<forall>i < length (data ph).
              \<not> (slot_start ph p + 1 + unat (keySize ph) \<le> i \<and>
                 i < slot_start ph p + 1 + unat (keySize ph) + unat (valueSize ph)) \<longrightarrow>
              data ph' ! i = data ph ! i) \<and>
           (\<forall>j < unat (numSlots ph).
              status_at ph' j = status_at ph j \<and> key_at ph' j = key_at ph j \<and>
              (j \<noteq> p \<longrightarrow> value_at ph' j = value_at ph j)) \<and>
           value_at ph' p = val \<and>
           Get ph' (key_at ph p) = Inr (val, True)"
proof -
  note g = table_invD(1)[OF inv]
  let ?key = "key_at ph p"
  let ?a = "slot_start ph p + 1 + unat (keySize ph)"
  let ?ph' = "set_value ph p val"
  have pn: "p < unat (numSlots ph)" using p by (rule occupied_less)
  have k: "length ?key = unat (keySize ph)" using g pn by (rule length_key_at)
  from probe_finds_stored[OF g table_invD(4,5)[OF inv] p] obtain w
    where w: "probe ph ?key (hashKey ?key mod numSlots ph) 0 = Hit w"
      and pw: "unat w = slot_start ph p" by blast
  have "putWithRetry ph ?key val 0 = (None, ?ph')"
    using numSlots_nonzero[OF g]
    by (subst putWithRetry_unfold) (simp add: w put_hit_branch[OF g pn pw v])
  then have put: "Put ph ?key val = (None, ?ph')" by (simp add: Put_valid[OF k v])
  have s: "unat (slotSize ph) = 1 + unat (keySize ph) + unat (valueSize ph)" using g by (rule geometryD)
  have lp: "slot_start ph p + unat (slotSize ph) \<le> length (data ph)" using g pn by (rule slot_end_le)
  have fit: "?a + length val \<le> length (data ph)" using lp s v by simp
  have d: "data ?ph' = overwrite_at (data ph) ?a val" by (simp add: set_value_def)
  have len: "length (data ?ph') = length (data ph)" using g pn v by (rule set_value_length)
  have bytes: "\<forall>i < length (data ph).
      \<not> (?a \<le> i \<and> i < ?a + unat (valueSize ph)) \<longrightarrow> data ?ph' ! i = data ph ! i"
    unfolding d using fit v by (auto simp: nth_overwrite_at)
  note sl = set_value_slots[OF g pn v]
  have slots: "\<forall>j < unat (numSlots ph).
      status_at ?ph' j = status_at ph j \<and> key_at ?ph' j = key_at ph j \<and>
      (j \<noteq> p \<longrightarrow> value_at ?ph' j = value_at ph j)"
    by (simp add: sl)
  have vp: "value_at ?ph' p = val" by (simp add: sl(3)[OF pn])
  have inv': "table_inv ?ph'" using inv pn v by (rule set_value_inv)
  have "stored ?ph' ?key val" using set_value_stored[OF inv p v, of ?key val] by simp
  with table_invD(1,4,5)[OF inv'] have get: "Get ?ph' ?key = Inr (val, True)"
    by (intro Get_stored)
  show ?thesis
  proof (intro exI[of _ ?ph'] conjI)
    show "Put ph ?key val = (None, ?ph')" by (rule put)
    show "length (data ?ph') = length (data ph)" by (rule len)
    show "\<forall>i < length (data ph).
      \<not> (?a \<le> i \<and> i < ?a + unat (valueSize ph)) \<longrightarrow> data ?ph' ! i = data ph ! i" by (rule bytes)
    show "\<forall>j < unat (numSlots ph).
      status_at ?ph' j = status_at ph j \<and> key_at ?ph' j = key_at ph j \<and>
      (j \<noteq> p \<longrightarrow> value_at ?ph' j = value_at ph j)" by (rule slots)
    show "value_at ?ph' p = val" by (rule vp)
    show "Get ?ph' ?key = Inr (val, True)" by (rule get)
  qed simp_all
qed

lemma table2_5_slot0: "0 \<in> occupied table2_5" "key_at table2_5 0 = [5]"
  by (simp_all add: occupied_def status_at_def key_at_def slot_start_def table2_5_eq)

lemma Put_table2_5_51: "Put table2_5 [5] [51] = (None, table2_51)"
  by code_simp

theorem Put_overwrite_witness:
  "table_inv table2_5 \<and> length [51 :: u8] = unat (valueSize table2_5) \<and> 0 \<in> occupied table2_5 \<and>
   key_at table2_5 0 = [5] \<and> Put table2_5 [5] [51] = (None, table2_51) \<and>
   usedSlots table2_51 = usedSlots table2_5 \<and>
   length (data table2_51) = length (data table2_5) \<and>
   value_at table2_51 0 = [51] \<and> Get table2_51 [5] = Inr ([51], True)"
proof -
  have l: "length [51 :: u8] = unat (valueSize table2_5)" by (simp add: table2_5_sizes)
  from Put_overwrite[OF table2_5_inv l table2_5_slot0(1)] obtain ph' where
    put: "Put table2_5 (key_at table2_5 0) [51] = (None, ph')"
    and rest: "usedSlots ph' = usedSlots table2_5" "length (data ph') = length (data table2_5)"
      "value_at ph' 0 = [51]" "Get ph' (key_at table2_5 0) = Inr ([51], True)"
    by blast
  from put have e: "ph' = table2_51" by (simp add: table2_5_slot0(2) Put_table2_5_51)
  from rest[unfolded e table2_5_slot0(2)] table2_5_inv l table2_5_slot0 Put_table2_5_51
  show ?thesis by (intro conjI)
qed

subsection \<open>Resizing doubles the capacity and keeps the data\<close>

lemma put_seq_inv:
  "put_seq ph kvs ph' \<Longrightarrow> table_inv ph \<Longrightarrow>
   table_inv ph' \<and>
   (\<forall>k x. stored ph' k x \<longleftrightarrow>
            (case map_of (rev kvs) k of Some v \<Rightarrow> x = v | None \<Rightarrow> stored ph k x)) \<and>
   (\<exists>j. unat (numSlots ph') = 2 ^ j * unat (numSlots ph))"
proof (induction rule: put_seq.induct)
  case (put_none ph)
  have "unat (numSlots ph) = 2 ^ 0 * unat (numSlots ph)" by simp
  then have "\<exists>j. unat (numSlots ph) = 2 ^ j * unat (numSlots ph)" by (rule exI)
  with put_none show ?case by simp
next
  case (put_next ph key val ph1 kvs ph')
  note p = Put_inv[OF put_next(7) put_next(1,2,3,4)]
  from put_next(6)[OF p(1)] have inv': "table_inv ph'"
    and st: "\<And>k x. stored ph' k x \<longleftrightarrow>
            (case map_of (rev kvs) k of Some v \<Rightarrow> x = v | None \<Rightarrow> stored ph1 k x)"
    and "\<exists>j. unat (numSlots ph') = 2 ^ j * unat (numSlots ph1)" by blast+
  then obtain j where j: "unat (numSlots ph') = 2 ^ j * unat (numSlots ph1)" by blast
  from p(6) obtain j1 where j1: "unat (numSlots ph1) = 2 ^ j1 * unat (numSlots ph)" by blast
  have "unat (numSlots ph') = 2 ^ (j + j1) * unat (numSlots ph)"
    using j j1 by (simp add: power_add)
  then have cap: "\<exists>j. unat (numSlots ph') = 2 ^ j * unat (numSlots ph)" by blast
  have "\<And>k x. stored ph' k x \<longleftrightarrow>
      (case map_of (rev ((key, val) # kvs)) k of Some v \<Rightarrow> x = v | None \<Rightarrow> stored ph k x)"
  proof -
    fix k x
    show "stored ph' k x \<longleftrightarrow>
      (case map_of (rev ((key, val) # kvs)) k of Some v \<Rightarrow> x = v | None \<Rightarrow> stored ph k x)"
      by (cases "map_of (rev kvs) k") (simp_all add: st p(2) map_add_def)
  qed
  with inv' cap show ?case by blast
qed

text \<open>
  On a well-formed table whose doubled size lies within 32-bit offsets, a resize sets
  the capacity to exactly \<open>numSlots * 2\<close> and every \<^verbatim>\<open>Get\<close> answers as before.  And after
  any run of successful \<^verbatim>\<open>Put\<close>s each of which starts with room for three doublings
  (\<open>put_seq\<close>), whatever number \<open>k\<close> of resizes they
  forced (the capacity is \<open>2^k\<close> times the initial one), every key that was put is
  retrievable by \<^verbatim>\<open>Get\<close> with the value written to it last.
\<close>

theorem resize_preserves_data:
  assumes "table_inv ph"
  shows "(fits ph 2 \<and> resize ph = Inr ph' \<longrightarrow>
            numSlots ph' = numSlots ph * 2 \<and> unat (numSlots ph') = unat (numSlots ph) * 2 \<and>
            (\<forall>key. Get ph' key = Get ph key)) \<and>
         (put_seq ph kvs ph'' \<longrightarrow>
            (\<exists>k. unat (numSlots ph'') = 2 ^ k * unat (numSlots ph)) \<and>
            (\<forall>key val. map_of (rev kvs) key = Some val \<longrightarrow> Get ph'' key = Inr (val, True)))"
proof (intro conjI impI)
  assume a: "fits ph 2 \<and> resize ph = Inr ph'"
  note r = resize_inv[OF assms conjunct1[OF a] conjunct2[OF a]]
  show "numSlots ph' = numSlots ph * 2" by (rule r(3))
  show "unat (numSlots ph') = unat (numSlots ph) * 2" using r(4) by simp
  show "\<forall>key. Get ph' key = Get ph key"
    using Get_cong[OF assms r(1) r(2)] by blast
next
  assume s: "put_seq ph kvs ph''"
  note i = put_seq_inv[OF s assms]
  from i show "\<exists>k. unat (numSlots ph'') = 2 ^ k * unat (numSlots ph)" by blast
  show "\<forall>key val. map_of (rev kvs) key = Some val \<longrightarrow> Get ph'' key = Inr (val, True)"
  proof (intro allI impI)
    fix key val assume "map_of (rev kvs) key = Some val"
    with i have "stored ph'' key val" by simp
    moreover from i have "table_inv ph''" by blast
    ultimately show "Get ph'' key = Inr (val, True)"
      using table_invD(1,4,5) by (intro Get_stored) blast+
  qed
qed

lemma put_seq_table2: "put_seq table2 [([5], [50]), ([7], [70])] table4_5_7"
proof -
  have f: "fits table2 8" "fits table2_5 8"
    by (rule fits_mono[OF table2_fits], simp, rule fits_mono[OF table2_5_fits], simp)
  have "put_seq table2_5 [([7], [70])] table4_5_7"
    using f(2) _ _ Put_table2_5 put_seq.put_none
    by (rule put_seq.put_next) (simp_all add: table2_5_sizes)
  with f(1) _ _ Put_table2 show ?thesis
    by (rule put_seq.put_next) (simp_all add: table2_sizes)
qed

theorem resize_preserves_data_witness:
  "table_inv table2_5 \<and> fits table2_5 2 \<and> resize table2_5 = Inr table4_5 \<and>
   numSlots table4_5 = numSlots table2_5 * 2 \<and> Get table4_5 [5] = Get table2_5 [5] \<and>
   Get table2_5 [5] = Inr ([50], True) \<and>
   table_inv table2 \<and> put_seq table2 [([5], [50]), ([7], [70])] table4_5_7 \<and>
   unat (numSlots table2) = 2 \<and> unat (numSlots table4_5_7) = 4 \<and>
   Get table4_5_7 [5] = Inr ([50], True) \<and> Get table4_5_7 [7] = Inr ([70], True)"
proof -
  have f: "fits table2_5 2" by (rule fits_mono[OF table2_5_fits]) simp
  from resize_preserves_data[OF table2_5_inv, of table4_5] f resize_table2_5
  have a: "numSlots table4_5 = numSlots table2_5 * 2" "Get table4_5 [5] = Get table2_5 [5]"
    by simp_all
  have m: "map_of (rev [([5 :: u8], [50 :: u8]), ([7], [70])]) [5] = Some [50]"
    "map_of (rev [([5 :: u8], [50 :: u8]), ([7], [70])]) [7] = Some [70]"
    by simp_all
  from resize_preserves_data[OF table2_inv, of _ "[([5], [50]), ([7], [70])]" table4_5_7]
    put_seq_table2 m
  have b: "Get table4_5_7 [5] = Inr ([50], True)" "Get table4_5_7 [7] = Inr ([70], True)"
    by blast+
  have c: "Get table2_5 [5] = Inr ([50], True)" by code_simp
  have n: "unat (numSlots table2) = 2" "unat (numSlots table4_5_7) = 4"
    by (simp_all add: table2_def table4_5_7_def)
  from a b c n f resize_table2_5 table2_5_inv table2_inv put_seq_table2
  show ?thesis by (intro conjI)
qed

subsection \<open>The load test\<close>

text \<open>
  The load test as the code computes it.  In a well-formed table whose capacity can be
  doubled three times within 32-bit offsets, for a key and a value of the configured lengths:
  a successful \<^verbatim>\<open>Put\<close> of a key that was stored leaves \<open>usedSlots\<close> and \<open>numSlots\<close> as they
  were; after a successful \<^verbatim>\<open>Put\<close> of a key that was not stored, the single-precision
  quotient \<open>float32 (usedSlots) / float32 (numSlots)\<close> of the new counts is not greater than
  the \<open>float32\<close> constant \<open>0.7\<close>; and when the probe ends at an empty slot \<open>p\<close>, \<^verbatim>\<open>Put\<close>
  tests \<open>float32 (usedSlots + 1) / float32 (numSlots) > 0.7\<close>: if the test holds it calls
  \<open>resize\<close> and, when that succeeds, retries on the resized table instead of inserting,
  and if not it writes the entry into slot \<open>p\<close>.
\<close>

theorem Put_load_check:
  assumes inv: "table_inv ph" and fit: "fits ph 8"
    and k: "length key = unat (keySize ph)" and v: "length val = unat (valueSize ph)"
  shows "(\<forall>ph'. Put ph key val = (None, ph') \<longrightarrow>
            (if \<exists>x. stored ph key x
             then usedSlots ph' = usedSlots ph \<and> numSlots ph' = numSlots ph
             else \<not> load_exceeded (usedSlots ph') (numSlots ph'))) \<and>
         (\<forall>w. probe ph key (hashKey key mod numSlots ph) 0 = Free w \<longrightarrow>
            (\<exists>p < unat (numSlots ph). unat w = slot_start ph p \<and> status_at ph p = 0 \<and>
               Put ph key val =
                 (if load_exceeded (usedSlots ph + 1) (numSlots ph)
                  then (case resize ph of
                          Inl e \<Rightarrow> (Some e, ph)
                        | Inr ph1 \<Rightarrow> putWithRetry ph1 key val 1)
                  else (None, set_slot ph p key val))))"
proof (intro conjI allI impI)
  fix ph'
  assume "Put ph key val = (None, ph')"
  then have "putWithRetry ph key val 0 = (None, ph')" by (simp add: Put_valid[OF k v])
  with inv fit k v show "if \<exists>x. stored ph key x
      then usedSlots ph' = usedSlots ph \<and> numSlots ph' = numSlots ph
      else \<not> load_exceeded (usedSlots ph') (numSlots ph')"
    by (intro putWithRetry_load[where r = 0 and val = val]) simp_all
next
  fix w
  assume pr: "probe ph key (hashKey key mod numSlots ph) 0 = Free w"
  note g = table_invD(1)[OF inv]
  from probe_Free_new[OF inv pr] obtain p where p: "p < unat (numSlots ph)"
    and pw: "unat w = slot_start ph p" and free: "status_at ph p = 0" by blast
  have "Put ph key val = putWithRetry ph key val 0" by (simp add: Put_valid[OF k v])
  also have "\<dots> = (if load_exceeded (usedSlots ph + 1) (numSlots ph)
                  then (case resize ph of
                          Inl e \<Rightarrow> (Some e, ph)
                        | Inr ph1 \<Rightarrow> putWithRetry ph1 key val 1)
                  else (None, set_slot ph p key val))"
    using numSlots_nonzero[OF g]
    by (subst putWithRetry_unfold) (simp add: pr put_free_branch[OF g p pw k v] cong: sum.case_cong)
  finally show "\<exists>p < unat (numSlots ph). unat w = slot_start ph p \<and> status_at ph p = 0 \<and>
               Put ph key val =
                 (if load_exceeded (usedSlots ph + 1) (numSlots ph)
                  then (case resize ph of
                          Inl e \<Rightarrow> (Some e, ph)
                        | Inr ph1 \<Rightarrow> putWithRetry ph1 key val 1)
                  else (None, set_slot ph p key val))"
    using p pw free by blast
qed

theorem Put_load_check_witness:
  "Put table2_5 [7] [70] = (None, table4_5_7) \<and>
   probe table2_5 [7] (hashKey [7] mod numSlots table2_5) 0 = Free 31 \<and>
   load_exceeded (usedSlots table2_5 + 1) (numSlots table2_5) \<and>
   Put table2_5 [7] [70] = putWithRetry table4_5 [7] [70] 1 \<and>
   \<not> load_exceeded (usedSlots table4_5_7) (numSlots table4_5_7)"
proof -
  have fit: "fits table2_5 8" using table2_5_fits by (rule fits_mono) simp
  have k: "length ([7] :: bytes) = unat (keySize table2_5)"
    and v: "length ([70] :: bytes) = unat (valueSize table2_5)"
    by (simp_all add: table2_5_sizes)
  have h1: "probe table2_5 [7] (hashKey [7] mod numSlots table2_5) 0 = Free 31" by code_simp
  have h2: "load_exceeded (usedSlots table2_5 + 1) (numSlots table2_5)" by code_simp
  note t = Put_load_check[OF table2_5_inv fit k v]
  from t[THEN conjunct1] Put_table2_5
  have "if \<exists>x. stored table2_5 [7] x
        then usedSlots table4_5_7 = usedSlots table2_5 \<and> numSlots table4_5_7 = numSlots table2_5
        else \<not> load_exceeded (usedSlots table4_5_7) (numSlots table4_5_7)"
    by blast
  then have a: "\<not> load_exceeded (usedSlots table4_5_7) (numSlots table4_5_7)"
    using table2_5_not_stored_7 by (auto split: if_splits)
  from t[THEN conjunct2] h1 obtain p where
    "Put table2_5 [7] [70] =
       (if load_exceeded (usedSlots table2_5 + 1) (numSlots table2_5)
        then (case resize table2_5 of
                Inl e \<Rightarrow> (Some e, table2_5)
              | Inr ph1 \<Rightarrow> putWithRetry ph1 [7] [70] 1)
        else (None, set_slot table2_5 p [7] [70]))"
    by blast
  with h2 have b: "Put table2_5 [7] [70] = putWithRetry table4_5 [7] [70] 1"
    by (simp add: resize_table2_5)
  from Put_table2_5 h1 h2 b a show ?thesis by (intro conjI)
qed

section \<open>Open: C10 and C9\<close>

lemma file_magic_only_bytes: "file_magic_only = [0x70, 0x68, 0x73, 0x68]"
  by (simp add: file_magic_only_def magicNumber_def PutUint32_def)

lemma Uint32_magic_bytes: "Uint32 [0x70, 0x68, 0x73, 0x68] = magicNumber"
  by (simp add: Uint32_def magicNumber_def)

lemma Open_file2: "Open file2 keySz valueSz = Inr table2"
proof -
  have "28 \<le> length file2" "Uint32 (take 4 file2) = magicNumber"
    by (simp_all add: file2_bytes Uint32_magic_bytes)
  from Open_nonempty[OF this, of keySz valueSz] show ?thesis
    by (simp add: file2_bytes table2_def Uint32_def)
qed

text \<open>
  C10, as stated, fails: a non-empty file can carry the magic number and still be too short
  to hold the other header fields.  On the four-byte file that consists of the magic number
  alone, the test of the magic number passes and the slice \<^verbatim>\<open>data[8:12]\<close> panics, so
  \<^verbatim>\<open>Open\<close> does not return a handle.
\<close>

theorem Open_magic_only_panics:
  "file_magic_only \<noteq> [] \<and> Uint32 (take 4 file_magic_only) = magicNumber \<and>
   Open file_magic_only 1 1 = Inl Panic"
  by (simp add: file_magic_only_bytes Uint32_magic_bytes Open_def slice_numeral slice_0_numeral)

text \<open>
  C10, amended: on an existing file that holds a whole header (at least 28 bytes) and whose
  magic number is valid, \<^verbatim>\<open>Open\<close> succeeds, the mapping is the file, and the cached
  \<open>keySize\<close>, \<open>valueSize\<close>, \<open>slotSize\<close>, \<open>numSlots\<close> and \<open>usedSlots\<close> are the fields
  stored in the header.  The arguments \<open>keySz\<close> and \<open>valueSz\<close> do not occur in the result:
  they are ignored, and no error is returned when they differ from the stored sizes.
\<close>

theorem Open_existing_reads_header:
  assumes "28 \<le> length file" and "Uint32 (take 4 file) = magicNumber"
  shows "Open file keySz valueSz =
           Inr \<lparr>data = file,
                keySize = Uint32 (take 4 (drop 20 file)), valueSize = Uint32 (take 4 (drop 24 file)),
                slotSize = Uint32 (take 4 (drop 16 file)), numSlots = Uint32 (take 4 (drop 8 file)),
                usedSlots = Uint32 (take 4 (drop 12 file))\<rparr>"
  using assms by (rule Open_nonempty)

theorem Open_existing_reads_header_witness:
  "28 \<le> length file2 \<and> Uint32 (take 4 file2) = magicNumber \<and>
   Open file2 7 9 =
     Inr \<lparr>data = file2, keySize = 1, valueSize = 1, slotSize = 3, numSlots = 2, usedSlots = 0\<rparr>"
proof -
  have h: "28 \<le> length file2" "Uint32 (take 4 file2) = magicNumber"
    by (simp_all add: file2_bytes Uint32_magic_bytes)
  from Open_existing_reads_header[OF h, of 7 9] h show ?thesis
    by (simp add: file2_bytes Uint32_def)
qed

text \<open>
  C9, as stated, fails: \<^verbatim>\<open>Open\<close> never compares a recomputed slot size with the stored
  one.  The two-slot file stores \<open>keySize = 1\<close>, \<open>valueSize = 1\<close> and \<open>slotSize = 3\<close>;
  opened with declared sizes 2 and 2 (slot size 5) it yields a handle with slot size 3,
  and the handle is usable: a \<^verbatim>\<open>Put\<close> and a \<^verbatim>\<open>Get\<close> on it succeed.
\<close>

theorem Open_mismatch_yields_handle:
  "Open file2 2 2 = Inr table2 \<and> slotSize table2 = 3 \<and> (1 + 2 + 2 :: u32) \<noteq> 3 \<and>
   fst (Put table2 [5] [50]) = None \<and> Get (snd (Put table2 [5] [50])) [5] = Inr ([50], True)"
proof -
  have "Open file2 2 2 = Inr table2" by (rule Open_file2)
  moreover have "slotSize table2 = 3" by (simp add: table2_def)
  moreover have "fst (Put table2 [5] [50]) = None" by code_simp
  moreover have "Get (snd (Put table2 [5] [50])) [5] = Inr ([50], True)" by code_simp
  ultimately show ?thesis by simp
qed

text \<open>
  C9, amended: the slot size is computed as \<open>1 + keySize + valueSize\<close> from the declared
  sizes only when \<^verbatim>\<open>Open\<close> initialises an empty file.  On a reopen of a non-empty file the
  declared sizes play no part: \<^verbatim>\<open>Open\<close> returns the same result whatever sizes are
  declared, and the slot size of a handle it returns is the value stored in the header; it
  is not compared with anything.
\<close>

theorem Open_slotSize:
  "(file = [] \<longrightarrow>
      (\<exists>ph. Open file keySz valueSz = Inr ph \<and> slotSize ph = 1 + keySz + valueSz)) \<and>
   (file \<noteq> [] \<longrightarrow>
      Open file keySz valueSz = Open file keySz' valueSz' \<and>
      (\<forall>ph. Open file keySz valueSz = Inr ph \<longrightarrow> slotSize ph = Uint32 (take 4 (drop 16 file))))"
proof (intro conjI impI allI)
  assume "file = []"
  then show "\<exists>ph. Open file keySz valueSz = Inr ph \<and> slotSize ph = 1 + keySz + valueSz"
    by (simp add: Open_empty)
next
  assume "file \<noteq> []"
  then show "Open file keySz valueSz = Open file keySz' valueSz'"
    by (simp add: Open_def)
next
  fix ph
  assume "file \<noteq> []" and "Open file keySz valueSz = Inr ph"
  then show "slotSize ph = Uint32 (take 4 (drop 16 file))"
    by (auto simp: Open_def slice_numeral slice_0_numeral split: if_splits option.splits)
qed

theorem Open_slotSize_witness:
  "file2 \<noteq> [] \<and> Open file2 1 1 = Open file2 2 2 \<and> Open file2 1 1 = Inr table2 \<and>
   slotSize table2 = Uint32 (take 4 (drop 16 file2)) \<and>
   (\<exists>ph. Open [] 1 1 = Inr ph \<and> slotSize ph = 3)"
proof -
  have ne: "file2 \<noteq> []" by (simp add: file2_bytes)
  have op: "Open file2 1 1 = Inr table2" by (rule Open_file2)
  from Open_slotSize[of file2 1 1 2 2] ne op
  have "Open file2 1 1 = Open file2 2 2 \<and> slotSize table2 = Uint32 (take 4 (drop 16 file2))"
    by simp
  moreover from Open_slotSize[of "[]" 1 1] have "\<exists>ph. Open [] 1 1 = Inr ph \<and> slotSize ph = 3"
    by simp
  ultimately show ?thesis using ne op by simp
qed

section \<open>C5: validation of key and value lengths\<close>

text \<open>
  C5.  \<^verbatim>\<open>Put\<close> with a key whose length differs from \<open>keySize\<close> is to return the validation
  error and leave the table as it was.  The test in the code is
  \<^verbatim>\<open>uint32(len(key)) != ph.keySize\<close>, which compares the length modulo \<open>2^32\<close>: on the
  two-slot table with one-byte keys, a key of \<open>2^32 + 1\<close> bytes has the wrong length, passes
  the test, and is not answered with the validation error.  (For keys and values shorter
  than \<open>2^32\<close> bytes the claim holds: \<open>Put_validation\<close> and \<open>Get_validation\<close>.)
\<close>

theorem Put_huge_key_not_rejected:
  "length huge_key \<noteq> unat (keySize table2) \<and>
   (of_nat (length huge_key) :: u32) = keySize table2 \<and>
   fst (Put table2 huge_key [9]) \<noteq> Some ValidationError"
proof -
  have len: "length huge_key = 4294967297" by (simp add: huge_key_def)
  then have trunc: "(of_nat (length huge_key) :: u32) = 1" by simp
  have sz: "keySize table2 = 1" "valueSize table2 = 1" by (simp_all add: table2_def)
  have "fst (putWithRetry table2 huge_key [9] 0) \<noteq> Some ValidationError"
    using putWithRetry_errors[of table2 huge_key "[9]" 0] by auto
  then have "fst (Put table2 huge_key [9]) \<noteq> Some ValidationError"
    by (simp add: Put_def trunc sz)
  with len trunc sz show ?thesis by simp
qed

theorem Put_huge_key_not_rejected_witness:
  "length huge_key = 2 ^ 32 + 1 \<and> unat (keySize table2) = 1 \<and>
   fst (Put table2 huge_key [9]) \<noteq> Some ValidationError"
  using Put_huge_key_not_rejected by (simp add: huge_key_def table2_def)

section \<open>C7: the bound on retries\<close>

text \<open>
  C7.  \<^verbatim>\<open>putWithRetry\<close> counts the retries that follow a resize in \<open>retryCount\<close>, and
  \<^verbatim>\<open>Put\<close> starts it at 0.  A call whose count is above 3 returns the retry error at
  once and leaves the handle alone.  A call with a count of at most 3 whose probe stops at
  a free slot with the load factor exceeded, and whose resize succeeds, is the call on the
  resized table with the count one higher; so retries 1, 2 and 3 are made, and when the
  third still asks for a resize the fourth is refused with the retry error.
\<close>

theorem putWithRetry_bounded:
  "(3 < retryCount \<longrightarrow> putWithRetry ph key val retryCount = (Some RetryExhausted, ph)) \<and>
   (retryCount \<le> 3 \<and> numSlots ph \<noteq> 0 \<and>
    probe ph key (hashKey key mod numSlots ph) 0 = Free slotStart \<and>
    load_exceeded (usedSlots ph + 1) (numSlots ph) \<and> resize ph = Inr ph' \<longrightarrow>
      putWithRetry ph key val retryCount = putWithRetry ph' key val (retryCount + 1) \<and>
      (retryCount = 3 \<longrightarrow> putWithRetry ph key val retryCount = (Some RetryExhausted, ph'))) \<and>
   Put ph key val =
     (if (of_nat (length key) :: u32) \<noteq> keySize ph \<or> (of_nat (length val) :: u32) \<noteq> valueSize ph
      then (Some ValidationError, ph) else putWithRetry ph key val 0)"
proof (intro conjI impI)
  assume "3 < retryCount"
  then show "putWithRetry ph key val retryCount = (Some RetryExhausted, ph)"
    by (subst putWithRetry_unfold) simp
next
  assume a: "retryCount \<le> 3 \<and> numSlots ph \<noteq> 0 \<and>
    probe ph key (hashKey key mod numSlots ph) 0 = Free slotStart \<and>
    load_exceeded (usedSlots ph + 1) (numSlots ph) \<and> resize ph = Inr ph'"
  then show step: "putWithRetry ph key val retryCount = putWithRetry ph' key val (retryCount + 1)"
    by (subst putWithRetry_unfold) simp
  assume "retryCount = 3"
  with step show "putWithRetry ph key val retryCount = (Some RetryExhausted, ph')"
    by (simp add: putWithRetry_unfold[of ph' key val 4])
next
  show "Put ph key val =
     (if (of_nat (length key) :: u32) \<noteq> keySize ph \<or> (of_nat (length val) :: u32) \<noteq> valueSize ph
      then (Some ValidationError, ph) else putWithRetry ph key val 0)"
    by (simp add: Put_def)
qed

theorem putWithRetry_bounded_witness:
  "putWithRetry table2_5 [7] [70] 4 = (Some RetryExhausted, table2_5) \<and>
   numSlots table2_5 \<noteq> 0 \<and>
   probe table2_5 [7] (hashKey [7] mod numSlots table2_5) 0 = Free 31 \<and>
   load_exceeded (usedSlots table2_5 + 1) (numSlots table2_5) \<and>
   resize table2_5 = Inr table4_5 \<and>
   putWithRetry table2_5 [7] [70] 0 = putWithRetry table4_5 [7] [70] 1 \<and>
   putWithRetry table2_5 [7] [70] 3 = (Some RetryExhausted, table4_5)"
proof -
  note r = resize_table2_5
  have h: "numSlots table2_5 \<noteq> 0"
    "probe table2_5 [7] (hashKey [7] mod numSlots table2_5) 0 = Free 31"
    "load_exceeded (usedSlots table2_5 + 1) (numSlots table2_5)"
    by code_simp+
  from putWithRetry_bounded[of 4 table2_5 "[7]" "[70]"]
  have "putWithRetry table2_5 [7] [70] 4 = (Some RetryExhausted, table2_5)" by simp
  moreover from putWithRetry_bounded[of 0 table2_5 "[7]" "[70]" 31 table4_5] h r
  have "putWithRetry table2_5 [7] [70] 0 = putWithRetry table4_5 [7] [70] 1" by force
  moreover from putWithRetry_bounded[of 3 table2_5 "[7]" "[70]" 31 table4_5] h r
  have "putWithRetry table2_5 [7] [70] 3 = (Some RetryExhausted, table4_5)" by blast
  ultimately show ?thesis using h r by simp
qed

section \<open>C1: Put followed by Get\<close>

text \<open>
  C1.  A \<^verbatim>\<open>Put\<close> of a key and a value of the configured lengths that returns success is to
  be followed by a \<^verbatim>\<open>Get\<close> that returns the value.  \<^verbatim>\<open>Open\<close> computes the size of a new
  file as \<^verbatim>\<open>headerSize + initialSlots*slotSize\<close> in \<^verbatim>\<open>uint32\<close> (line 93).  For
  \<open>keySize = 2\<close> and \<open>valueSize = 4194302\<close> the product is \<open>2^32 + 1024\<close> and the new file has
  1052 bytes, less than one slot.  On the table \<^verbatim>\<open>Open\<close> returns, \<^verbatim>\<open>Put\<close> of the key \<open>[2, 69]\<close>
  (home slot 0) with a value of 4194302 bytes returns success, having copied the 1021 bytes
  that fit; the following \<^verbatim>\<open>Get\<close> of the key panics on the slice of the value, whose bound
  lies beyond the mapping.  (Within 32-bit offsets the claim holds: \<open>Put_then_Get\<close>.)
\<close>

theorem Put_then_Get_panics:
  "Open [] 2 4194302 = Inr wrap_table \<and>
   length [2 :: u8, 69] = unat (keySize wrap_table) \<and>
   length wrap_value = unat (valueSize wrap_table) \<and>
   Put wrap_table [2, 69] wrap_value = (None, wrap_table_put) \<and>
   Get wrap_table_put [2, 69] = Inl Panic"
  using Open_wrap_table Put_wrap_table Get_wrap_table_put
  by (simp add: wrap_table_def wrap_value_def)

theorem Put_then_Get_panics_witness:
  "(of_nat (length [2 :: u8, 69]) :: u32) = keySize wrap_table \<and>
   (of_nat (length wrap_value) :: u32) = valueSize wrap_table \<and>
   length (data wrap_table) = 1052 \<and>
   fst (Put wrap_table [2, 69] wrap_value) = None \<and>
   Get (snd (Put wrap_table [2, 69] wrap_value)) [2, 69] = Inl Panic"
  using Put_then_Get_panics by (auto simp add: wrap_table_data)

section \<open>C8: keys are unique\<close>

text \<open>
  C8.  No table reached by \<^verbatim>\<open>Open\<close>, \<^verbatim>\<open>Put\<close>, \<^verbatim>\<open>Get\<close> and \<open>resize\<close> is to hold two occupied
  slots with equal keys.  \<^verbatim>\<open>Put\<close> tests \<^verbatim>\<open>uint32(len(value)) != ph.valueSize\<close> (line 182),
  which compares the length modulo \<open>2^32\<close>, and \<^verbatim>\<open>copy\<close> (line 220) then writes as much of
  the value as the mapping holds.  On the new table for \<open>keySize = 2\<close> and \<open>valueSize = 1\<close>,
  \<^verbatim>\<open>Put\<close> of the key \<open>[2, 69]\<close> (home slot 0) with the value \<open>trunc_value\<close> of \<open>2^32 + 1\<close>
  bytes, which begins \<open>50, 1, 2, 69, 50\<close>, returns success; the bytes after the first run
  over slot 1 and the slots behind it, and slots 0 and 1 are then both occupied and both
  hold the key \<open>[2, 69]\<close>.  (With slices shorter than \<open>2^32\<close> bytes and within 32-bit offsets
  the claim holds: \<open>reachable_keys_unique\<close>.)
\<close>

theorem Put_huge_value_duplicates_key:
  "Open [] 2 1 = Inr trunc_table \<and>
   length trunc_value = 2 ^ 32 + 1 \<and>
   Put trunc_table [2, 69] trunc_value = (None, trunc_table_put) \<and>
   0 \<in> occupied trunc_table_put \<and> 1 \<in> occupied trunc_table_put \<and>
   key_at trunc_table_put 0 = [2, 69] \<and> key_at trunc_table_put 1 = [2, 69] \<and>
   \<not> keys_unique trunc_table_put"
proof -
  have o: "0 \<in> occupied trunc_table_put" "1 \<in> occupied trunc_table_put"
    using trunc_table_put_slots(1,2) by (simp_all add: occupied_def trunc_table_put_def)
  have "\<not> keys_unique trunc_table_put"
  proof
    assume "keys_unique trunc_table_put"
    with o trunc_table_put_slots(3,4) have "(0 :: nat) = 1"
      unfolding keys_unique_def by metis
    then show False by simp
  qed
  with o Open_trunc_table Put_trunc_table trunc_table_put_slots(3,4) length_trunc_value
  show ?thesis by simp
qed

theorem Put_huge_value_duplicates_key_witness:
  "(of_nat (length [2 :: u8, 69]) :: u32) = keySize trunc_table \<and>
   (of_nat (length trunc_value) :: u32) = valueSize trunc_table \<and>
   fst (Put trunc_table [2, 69] trunc_value) = None \<and>
   status_at (snd (Put trunc_table [2, 69] trunc_value)) 0 = 1 \<and>
   status_at (snd (Put trunc_table [2, 69] trunc_value)) 1 = 1 \<and>
   key_at (snd (Put trunc_table [2, 69] trunc_value)) 0
     = key_at (snd (Put trunc_table [2, 69] trunc_value)) 1"
  using Put_huge_value_duplicates_key
  by (auto simp add: occupied_def trunc_table_def)

section \<open>C4: closing and reopening\<close>

text \<open>
  C4.  Closing a table and opening the file again with the same sizes is to give the same
  \<^verbatim>\<open>Get\<close> results.  The offset of a slot is \<^verbatim>\<open>headerSize + currentIdx*ph.slotSize\<close> in
  \<^verbatim>\<open>uint32\<close> (lines 202 and 252).  On the new table for \<open>keySize = 3\<close> and
  \<open>valueSize = 4198400\<close> (slot size 4198404; the file size wraps to 4198428) the offset of
  slot 1023 wraps to 24, the header field that stores \<open>valueSize\<close>.  Its first byte is 0, so
  the slot counts as empty: \<^verbatim>\<open>Put\<close> of the key \<open>[0, 147, 1]\<close>, whose home slot it is, returns
  success and writes the status byte and the key over header bytes 24 to 27.  \<^verbatim>\<open>Get\<close> on
  the open table returns the value; after \<^verbatim>\<open>Close\<close> and \<^verbatim>\<open>Open\<close> with the same sizes the
  handle reads \<open>valueSize = 16814849\<close> from the header and \<^verbatim>\<open>Get\<close> returns a value of that
  length, the stored one followed by zeros.  (For a table whose header agrees with the
  handle the claim holds: \<open>Close_then_Open\<close>.)
\<close>

theorem Close_then_Open_changes_Get:
  "Open [] 3 4198400 = Inr hdr_table \<and>
   length [0 :: u8, 147, 1] = unat (keySize hdr_table) \<and>
   length hdr_value = unat (valueSize hdr_table) \<and>
   Put hdr_table [0, 147, 1] hdr_value = (None, hdr_table_put) \<and>
   Get hdr_table_put [0, 147, 1] = Inr (hdr_value, True) \<and>
   Open (Close hdr_table_put) 3 4198400 = Inr hdr_table_reopened \<and>
   valueSize hdr_table_reopened = 16814849 \<and>
   Get hdr_table_reopened [0, 147, 1] = Inr (hdr_value @ replicate 12616449 0, True) \<and>
   Get hdr_table_reopened [0, 147, 1] \<noteq> Get hdr_table_put [0, 147, 1]"
  using Open_hdr_table Put_hdr_table Get_hdr_table_put Open_hdr_table_put Get_hdr_table_reopened
  by (simp add: hdr_table_def hdr_value_def hdr_table_reopened_def)

theorem Close_then_Open_changes_Get_witness:
  "(of_nat (length [0 :: u8, 147, 1]) :: u32) = keySize hdr_table \<and>
   (of_nat (length hdr_value) :: u32) = valueSize hdr_table \<and>
   fst (Put hdr_table [0, 147, 1] hdr_value) = None \<and>
   Get (snd (Put hdr_table [0, 147, 1] hdr_value)) [0, 147, 1] = Inr (hdr_value, True) \<and>
   Open (Close (snd (Put hdr_table [0, 147, 1] hdr_value))) 3 4198400 = Inr hdr_table_reopened \<and>
   length (fst (projr (Get hdr_table_reopened [0, 147, 1]))) = 16814849"
  using Close_then_Open_changes_Get by (auto simp add: hdr_table_def hdr_value_def)

section \<open>C6: overwriting an existing key\<close>

text \<open>
  C6.  A \<^verbatim>\<open>Put\<close> of a key that occupies a slot on its probe path is to change only the value
  bytes of that slot, and a following \<^verbatim>\<open>Get\<close> is to return the new value.  Two inputs on
  which the code does otherwise:

  \<^item> On the table \<open>wrap_table_put\<close> (made by \<^verbatim>\<open>Open\<close> on a new file with \<open>keySize = 2\<close>,
    \<open>valueSize = 4194302\<close>, whose size wraps to 1052 bytes, and one \<^verbatim>\<open>Put\<close> of \<open>[2, 69]\<close>) the
    probe of \<open>[2, 69]\<close> stops at its occupied home slot; \<^verbatim>\<open>Put\<close> of the key with a second
    value of 4194302 bytes returns success, and the following \<^verbatim>\<open>Get\<close> panics.

  \<^item> On the two-slot table that holds \<open>[5]\<close> in slot 0 and whose slot 1 is empty, \<^verbatim>\<open>Put\<close> of
    \<open>[5]\<close> with the value \<open>long_value\<close> of \<open>2^32 + 1\<close> bytes passes the length test of line
    182, which compares \<^verbatim>\<open>uint32(len(value))\<close>, and returns success; \<^verbatim>\<open>copy\<close> (line 229)
    writes on over slot 1, whose status, key and value bytes all become 9.

  (Within 32-bit offsets and for a value of \<open>valueSize\<close> bytes the claim holds:
  \<open>Put_overwrite\<close>.)
\<close>

theorem Put_overwrite_diverges:
  "Open [] 2 4194302 = Inr wrap_table \<and>
   Put wrap_table [2, 69] wrap_value = (None, wrap_table_put) \<and>
   probe wrap_table_put [2, 69] (hashKey [2, 69] mod numSlots wrap_table_put) 0 = Hit 28 \<and>
   length wrap_value2 = unat (valueSize wrap_table_put) \<and>
   Put wrap_table_put [2, 69] wrap_value2 = (None, wrap_table_put2) \<and>
   Get wrap_table_put2 [2, 69] = Inl Panic \<and>
   probe table2_5 [5] (hashKey [5] mod numSlots table2_5) 0 = Hit 28 \<and>
   length long_value = 2 ^ 32 + 1 \<and>
   Put table2_5 [5] long_value = (None, table2_5_long) \<and>
   status_at table2_5 1 = 0 \<and> status_at table2_5_long 1 = 9 \<and>
   key_at table2_5_long 1 = [9] \<and> value_at table2_5_long 1 = [9]"
proof -
  have "probe wrap_table_put [2, 69] (hashKey [2, 69] mod numSlots wrap_table_put) 0 = Hit 28"
    using wrap_table_put_home by (rule probe_home_hit)
  moreover have "probe table2_5 [5] (hashKey [5] mod numSlots table2_5) 0 = Hit 28"
    by (rule probe_home_hit) (simp_all add: table2_5_eq home_5 headerSize_def slice_def)
  moreover have "length wrap_value2 = unat (valueSize wrap_table_put)"
    by (simp add: wrap_value2_def wrap_table_put_def)
  ultimately show ?thesis
    using Open_wrap_table Put_wrap_table Put_wrap_table_put Get_wrap_table_put2
      Put_table2_5_long table2_5_long_slots length_long_value
    by simp
qed

theorem Put_overwrite_diverges_witness:
  "(of_nat (length [2 :: u8, 69]) :: u32) = keySize wrap_table_put \<and>
   (of_nat (length wrap_value2) :: u32) = valueSize wrap_table_put \<and>
   fst (Put wrap_table_put [2, 69] wrap_value2) = None \<and>
   Get (snd (Put wrap_table_put [2, 69] wrap_value2)) [2, 69] = Inl Panic \<and>
   (of_nat (length long_value) :: u32) = valueSize table2_5 \<and>
   fst (Put table2_5 [5] long_value) = None \<and>
   status_at (snd (Put table2_5 [5] long_value)) 1 \<noteq> status_at table2_5 1"
  using Put_overwrite_diverges
  by (auto simp add: wrap_table_put_def wrap_value2_def table2_5_eq)

section \<open>C2: resizing doubles the capacity and keeps the data\<close>



section \<open>C3: the load factor\<close>

text \<open>
  C3.  After a successful \<^verbatim>\<open>Put\<close> the ratio \<open>usedSlots / numSlots\<close> is to be at most 0.7, and
  a \<^verbatim>\<open>Put\<close> that would push it above is to resize instead of inserting.  The test of line
  207 is computed in single precision.  The table \<open>big_table\<close>, as opened from \<open>big_file\<close>,
  has \<open>2^26 = 67108864\<close> slots and a count of 46976204.  A \<^verbatim>\<open>Put\<close> of the new key
  \<open>[0, 0, 0, 0]\<close> finds its home slot empty; \<open>float32 (46976205)\<close> is 46976204, the quotient
  by \<open>2^26\<close> is exactly the \<open>float32\<close> constant \<open>0.7\<close>, the test \<open>> 0.7\<close> fails, and the key is
  inserted without a resize.  The \<^verbatim>\<open>Put\<close> succeeds and leaves \<open>usedSlots = 46976205\<close>,
  \<open>numSlots = 67108864\<close>: \<open>usedSlots / numSlots > 0.7\<close>, since
  \<open>10 * 46976205 = 469762050 > 469762048 = 7 * 67108864\<close>.  (By \<open>Put_insert_home\<close> the
  outcome depends only on the two counts and on the home slot being free, not on the other
  slots of the table.)
\<close>

theorem Put_load_above_seven_tenths:
  "Open big_file 4 0 = Inr big_table \<and>
   \<not> load_exceeded (usedSlots big_table + 1) (numSlots big_table) \<and>
   7 * unat (numSlots big_table) < 10 * unat (usedSlots big_table + 1) \<and>
   fst (Put big_table [0, 0, 0, 0] []) = None \<and>
   numSlots (snd (Put big_table [0, 0, 0, 0] [])) = 67108864 \<and>
   usedSlots (snd (Put big_table [0, 0, 0, 0] [])) = 46976205 \<and>
   7 * unat (numSlots (snd (Put big_table [0, 0, 0, 0] [])))
     < 10 * unat (usedSlots (snd (Put big_table [0, 0, 0, 0] [])))"
proof -
  have a: "\<not> load_exceeded (usedSlots big_table + 1) (numSlots big_table)"
    using big_table_load by (simp add: big_table_def)
  have b: "7 * unat (numSlots big_table) < 10 * unat (usedSlots big_table + 1)"
    by (simp add: big_table_def)
  have c: "fst (Put big_table [0, 0, 0, 0] []) = None"
    "numSlots (snd (Put big_table [0, 0, 0, 0] [])) = 67108864"
    "usedSlots (snd (Put big_table [0, 0, 0, 0] [])) = 46976205"
    by (simp_all add: Put_big_table) (simp_all add: big_table_def)
  have d: "7 * unat (numSlots (snd (Put big_table [0, 0, 0, 0] [])))
     < 10 * unat (usedSlots (snd (Put big_table [0, 0, 0, 0] [])))"
    unfolding c by simp
  from Open_big_file a b c d show ?thesis by blast
qed

theorem Put_load_above_seven_tenths_witness:
  "(of_nat (length [0 :: u8, 0, 0, 0]) :: u32) = keySize big_table \<and>
   (of_nat (length ([] :: bytes)) :: u32) = valueSize big_table \<and>
   Put big_table [0, 0, 0, 0] [] = (None, set_slot big_table 60159253 [0, 0, 0, 0] []) \<and>
   7 * unat (numSlots (snd (Put big_table [0, 0, 0, 0] [])))
     < 10 * unat (usedSlots (snd (Put big_table [0, 0, 0, 0] [])))"
proof -
  have l: "(of_nat (length [0 :: u8, 0, 0, 0]) :: u32) = keySize big_table"
    "(of_nat (length ([] :: bytes)) :: u32) = valueSize big_table"
    by (simp_all add: big_table_def)
  from Put_load_above_seven_tenths
  have "7 * unat (numSlots (snd (Put big_table [0, 0, 0, 0] [])))
     < 10 * unat (usedSlots (snd (Put big_table [0, 0, 0, 0] [])))" by blast
  with l Put_big_table show ?thesis by blast
qed

end
